theory Spec2Isabelle
  imports Main "HOL-Library.Word" "HOL-Library.Multiset"
begin

section \<open>Data model of event.c\<close>

text \<open>
  Modelled from the spec: the bit constants \<^verbatim>\<open>EVLIST_*\<close> and \<^verbatim>\<open>EV_*\<close> are declared in
  event.h, which is not among the sources. The spec describes \<^verbatim>\<open>ev_flags\<close> as a set of
  lifecycle flags and \<^verbatim>\<open>ev_events\<close> as an interest mask drawn from a set of kinds, so a
  mask is a set of named bits: \<^verbatim>\<open>m & BIT\<close> is membership, \<^verbatim>\<open>m |= BIT\<close> is insertion and
  \<^verbatim>\<open>m &= ~BIT\<close> is removal. The type has no bit outside \<^verbatim>\<open>EVLIST_ALL\<close>, so the assertion
  \<^verbatim>\<open>assert(!(ev->ev_flags & ~EVLIST_ALL))\<close> of \<^verbatim>\<open>event_add\<close> and \<^verbatim>\<open>event_del\<close> always holds.
\<close>

datatype evlist =
  EVLIST_TIMEOUT | EVLIST_INSERTED | EVLIST_SIGNAL | EVLIST_ACTIVE | EVLIST_INTERNAL | EVLIST_INIT

datatype evmask = EV_TIMEOUT | EV_READ | EV_WRITE | EV_SIGNAL | EV_PERSIST

text \<open>
  Modelled from the spec: \<^verbatim>\<open>struct timeval\<close> and the macros \<^verbatim>\<open>evutil_timeradd\<close>,
  \<^verbatim>\<open>evutil_timersub\<close>, \<^verbatim>\<open>evutil_timercmp\<close> and \<^verbatim>\<open>evutil_timerclear\<close> come from headers that are
  not among the sources. The spec treats a time as a number (\<^verbatim>\<open>off = event_tv - now\<close>,
  \<^verbatim>\<open>deadline = now + timeout\<close>, \<^verbatim>\<open>deadline <= now\<close>), so a \<^verbatim>\<open>timeval\<close> is an integer count of
  microseconds, unbounded, and the macros are \<open>+\<close>, \<open>-\<close> and the order of \<open>int\<close>. The field
  \<^verbatim>\<open>tv_sec\<close> that \<^verbatim>\<open>gettime\<close> tests is the whole number of seconds.
\<close>

type_synonym timeval = int

definition tv_sec :: "timeval \<Rightarrow> int" where
  "tv_sec t = t div 1000000"

text \<open>
  An event is caller-owned storage that the loop reaches through a pointer. The model
  keeps the events in a store indexed by their address \<open>evref\<close>. The model has one loop:
  \<open>ev_base = None\<close> is the null pointer and \<open>Some ()\<close> points to that loop. \<open>ev_pncalls\<close> is
  the address of the local variable \<^verbatim>\<open>ncalls\<close> of a running drain, or \<open>None\<close> for NULL.
  \<open>ev_callback\<close> is a function pointer: an index into a table of callbacks.
\<close>

type_synonym evref = nat

record event =
  ev_base :: "unit option"
  ev_fd :: int
  ev_events :: "evmask set"
  ev_ncalls :: "16 word"
  ev_pncalls :: "nat option"
  ev_timeout :: timeval
  ev_pri :: nat
  ev_callback :: nat
  ev_arg :: nat
  ev_res :: "evmask set"
  ev_flags :: "evlist set"

text \<open>
  Modelled from the spec: min_heap.h is not among the sources. The spec describes the
  timer heap as a backing array ordered by deadline ascending whose root is the
  next-to-fire timer, with \<^verbatim>\<open>push\<close>, \<^verbatim>\<open>erase(ev)\<close>, \<^verbatim>\<open>peek_min\<close> and a \<^verbatim>\<open>reserve(capacity)\<close> that
  grows the backing array without touching elements and is the one step that can run out
  of memory. \<open>heap_p\<close> is the array \<^verbatim>\<open>p\<close> (its length is the field \<^verbatim>\<open>n\<close>) and \<open>heap_a\<close> the
  capacity \<^verbatim>\<open>a\<close>. The deadlines live in the events, so the operations that compare
  deadlines read the event store.
\<close>

record min_heap =
  heap_p :: "evref list"
  heap_a :: nat

definition min_heap_size :: "min_heap \<Rightarrow> nat" where
  "min_heap_size h = length (heap_p h)"

definition min_heap_empty :: "min_heap \<Rightarrow> bool" where
  "min_heap_empty h = (heap_p h = [])"

definition min_heap_top :: "min_heap \<Rightarrow> evref option" where
  "min_heap_top h = (case heap_p h of [] \<Rightarrow> None | e # _ \<Rightarrow> Some e)"

definition min_heap_reserve :: "(nat \<Rightarrow> bool) \<Rightarrow> min_heap \<Rightarrow> nat \<Rightarrow> int \<times> min_heap" where
  "min_heap_reserve ok h n =
     (if heap_a h < n
      then (if ok n then (0, h\<lparr>heap_a := n\<rparr>) else (- 1, h))
      else (0, h))"

definition min_heap_push :: "(evref \<Rightarrow> event) \<Rightarrow> min_heap \<Rightarrow> evref \<Rightarrow> min_heap" where
  "min_heap_push m h e =
     h\<lparr>heap_p := insort_key (\<lambda>x. ev_timeout (m x)) e (heap_p h),
       heap_a := max (heap_a h) (Suc (length (heap_p h)))\<rparr>"

definition min_heap_erase :: "min_heap \<Rightarrow> evref \<Rightarrow> min_heap" where
  "min_heap_erase h e = h\<lparr>heap_p := remove1 e (heap_p h)\<rparr>"

text \<open>
  The backends (epoll.c, select.c, ...) are not among the sources. A backend is the
  table \<^verbatim>\<open>struct eventop\<close> of the loop: its \<^verbatim>\<open>add\<close> and \<^verbatim>\<open>del\<close> take the backend's own state
  \<^verbatim>\<open>evbase\<close> and the event, and give the C return value and the new backend state.
\<close>

record 'b eventop =
  evsel_add :: "'b \<Rightarrow> evref \<Rightarrow> event \<Rightarrow> int \<times> 'b"
  evsel_del :: "'b \<Rightarrow> evref \<Rightarrow> event \<Rightarrow> int \<times> 'b"

text \<open>
  \<^verbatim>\<open>struct event_base\<close>. A \<^verbatim>\<open>TAILQ\<close> of events is the list of their addresses, head first;
  \<^verbatim>\<open>nactivequeues\<close> is the length of \<open>activequeues\<close>. The counters are C \<^verbatim>\<open>int\<close>s; the model
  does not bound them.
\<close>

record 'b event_base =
  evsel :: "'b eventop"
  evbase :: 'b
  event_count :: int
  event_count_active :: int
  event_gotterm :: bool
  event_break :: bool
  activequeues :: "evref list list"
  eventqueue :: "evref list"
  event_tv :: timeval
  timeheap :: min_heap
  tv_cache :: timeval

text \<open>
  The memory the functions of event.c work on: the events, the loop, the stack slots
  that hold the \<^verbatim>\<open>ncalls\<close> locals of running drains (\<open>locals\<close>, by address), the globals
  \<^verbatim>\<open>event_gotsig\<close> and \<^verbatim>\<open>use_monotonic\<close>, what the system clock reads (\<open>sysclock\<close>: the
  monotonic clock when \<open>use_monotonic\<close>, the wall clock otherwise; reading it always
  succeeds), and whether \<^verbatim>\<open>realloc\<close> grants a capacity (\<open>alloc_ok\<close>).
\<close>

record 'b world =
  evs :: "evref \<Rightarrow> event"
  base :: "'b event_base"
  locals :: "nat \<Rightarrow> 16 word"
  event_gotsig :: bool
  use_monotonic :: bool
  sysclock :: timeval
  alloc_ok :: "nat \<Rightarrow> bool"

text \<open>
  What stops the process: \<^verbatim>\<open>event_errx(1, ...)\<close> exits, a failed \<^verbatim>\<open>assert\<close> aborts,
  indexing \<^verbatim>\<open>activequeues\<close> outside \<^verbatim>\<open>[0, nactivequeues)\<close> is undefined behaviour in C, and
  so is reading a field of the loop through a null \<^verbatim>\<open>ev_base\<close> (\<open>Null_base\<close>).
\<close>

datatype fault =
  Not_on_queue | Already_on_queue | Unknown_queue | Assert_failed | Bad_queue_index | Null_base

section \<open>The functions of event.c\<close>

definition gettime :: "'b world \<Rightarrow> timeval" where
  "gettime s = (if tv_sec (tv_cache (base s)) \<noteq> 0 then tv_cache (base s) else sysclock s)"

definition put_event :: "'b world \<Rightarrow> evref \<Rightarrow> event \<Rightarrow> 'b world" where
  "put_event s ev e = s\<lparr>evs := (evs s)(ev := e)\<rparr>"

definition event_queue_remove :: "'b world \<Rightarrow> evref \<Rightarrow> evlist \<Rightarrow> fault + 'b world" where
  "event_queue_remove s ev queue =
     (let e = evs s ev; b = base s in
      if queue \<notin> ev_flags e then Inl Not_on_queue
      else
        let b1 = (if EVLIST_INTERNAL \<notin> ev_flags e
                  then b\<lparr>event_count := event_count b - 1\<rparr> else b);
            s1 = put_event s ev (e\<lparr>ev_flags := ev_flags e - {queue}\<rparr>)
        in case queue of
             EVLIST_INSERTED \<Rightarrow>
               Inr (s1\<lparr>base := b1\<lparr>eventqueue := remove1 ev (eventqueue b1)\<rparr>\<rparr>)
           | EVLIST_ACTIVE \<Rightarrow>
               if ev_pri e < length (activequeues b1)
               then Inr (s1\<lparr>base := b1\<lparr>event_count_active := event_count_active b1 - 1,
                          activequeues := (activequeues b1)
                            [ev_pri e := remove1 ev (activequeues b1 ! ev_pri e)]\<rparr>\<rparr>)
               else Inl Bad_queue_index
           | EVLIST_TIMEOUT \<Rightarrow>
               Inr (s1\<lparr>base := b1\<lparr>timeheap := min_heap_erase (timeheap b1) ev\<rparr>\<rparr>)
           | _ \<Rightarrow> Inl Unknown_queue)"

definition event_queue_insert :: "'b world \<Rightarrow> evref \<Rightarrow> evlist \<Rightarrow> fault + 'b world" where
  "event_queue_insert s ev queue =
     (let e = evs s ev; b = base s in
      if queue \<in> ev_flags e
      then (if queue = EVLIST_ACTIVE then Inr s else Inl Already_on_queue)
      else
        let b1 = (if EVLIST_INTERNAL \<notin> ev_flags e
                  then b\<lparr>event_count := event_count b + 1\<rparr> else b);
            s1 = put_event s ev (e\<lparr>ev_flags := insert queue (ev_flags e)\<rparr>)
        in case queue of
             EVLIST_INSERTED \<Rightarrow>
               Inr (s1\<lparr>base := b1\<lparr>eventqueue := eventqueue b1 @ [ev]\<rparr>\<rparr>)
           | EVLIST_ACTIVE \<Rightarrow>
               if ev_pri e < length (activequeues b1)
               then Inr (s1\<lparr>base := b1\<lparr>event_count_active := event_count_active b1 + 1,
                          activequeues := (activequeues b1)
                            [ev_pri e := activequeues b1 ! ev_pri e @ [ev]]\<rparr>\<rparr>)
               else Inl Bad_queue_index
           | EVLIST_TIMEOUT \<Rightarrow>
               Inr (s1\<lparr>base := b1\<lparr>timeheap := min_heap_push (evs s1) (timeheap b1) ev\<rparr>\<rparr>)
           | _ \<Rightarrow> Inl Unknown_queue)"

text \<open>
  \<^verbatim>\<open>if (ev->ev_ncalls && ev->ev_pncalls) *ev->ev_pncalls = 0;\<close> of \<^verbatim>\<open>event_add\<close> and
  \<^verbatim>\<open>event_del\<close>: the write goes through the pointer into the drain's local.
\<close>

definition abort_loop :: "'b world \<Rightarrow> evref \<Rightarrow> 'b world" where
  "abort_loop s ev =
     (case ev_pncalls (evs s ev) of
        None \<Rightarrow> s
      | Some pn \<Rightarrow> if ev_ncalls (evs s ev) \<noteq> 0 then s\<lparr>locals := (locals s)(pn := 0)\<rparr> else s)"

text \<open>
  \<^verbatim>\<open>event_add\<close>, in the three steps of its body. \<open>tv = None\<close> is the null pointer. The
  function starts by reading \<^verbatim>\<open>ev->ev_base->evsel\<close>, with no test of \<^verbatim>\<open>ev_base\<close>. The first
  step gives the result of \<^verbatim>\<open>min_heap_reserve\<close>, or \<^verbatim>\<open>0\<close> when nothing is reserved, and the
  memory with the heap as the reservation left it; on \<^verbatim>\<open>-1\<close> \<^verbatim>\<open>event_add\<close> returns at once.
\<close>

definition event_add_reserve :: "'b world \<Rightarrow> evref \<Rightarrow> timeval option \<Rightarrow> int \<times> 'b world" where
  "event_add_reserve s ev tv =
     (if tv \<noteq> None \<and> EVLIST_TIMEOUT \<notin> ev_flags (evs s ev)
      then (case min_heap_reserve (alloc_ok s) (timeheap (base s))
                   (1 + min_heap_size (timeheap (base s))) of
              (r, h) \<Rightarrow> (r, s\<lparr>base := (base s)\<lparr>timeheap := h\<rparr>\<rparr>))
      else (0, s))"

definition event_add_io :: "'b world \<Rightarrow> evref \<Rightarrow> fault + (int \<times> 'b world)" where
  "event_add_io s ev =
     (let e = evs s ev; b = base s in
      if ev_events e \<inter> {EV_READ, EV_WRITE, EV_SIGNAL} \<noteq> {} \<and>
         ev_flags e \<inter> {EVLIST_INSERTED, EVLIST_ACTIVE} = {}
      then (case evsel_add (evsel b) (evbase b) ev e of
              (res, eb) \<Rightarrow>
                let s1 = s\<lparr>base := b\<lparr>evbase := eb\<rparr>\<rparr> in
                if res \<noteq> - 1
                then (case event_queue_insert s1 ev EVLIST_INSERTED of
                        Inl f \<Rightarrow> Inl f
                      | Inr s2 \<Rightarrow> Inr (res, s2))
                else Inr (res, s1))
      else Inr (0, s))"

definition event_add_timeout :: "'b world \<Rightarrow> evref \<Rightarrow> timeval \<Rightarrow> fault + 'b world" where
  "event_add_timeout s ev t =
     (case (if EVLIST_TIMEOUT \<in> ev_flags (evs s ev)
            then event_queue_remove s ev EVLIST_TIMEOUT else Inr s) of
        Inl f \<Rightarrow> Inl f
      | Inr s1 \<Rightarrow>
          (case (if EVLIST_ACTIVE \<in> ev_flags (evs s1 ev) \<and> EV_TIMEOUT \<in> ev_res (evs s1 ev)
                 then event_queue_remove (abort_loop s1 ev) ev EVLIST_ACTIVE else Inr s1) of
             Inl f \<Rightarrow> Inl f
           | Inr s2 \<Rightarrow>
               event_queue_insert
                 (put_event s2 ev ((evs s2 ev)\<lparr>ev_timeout := gettime s2 + t\<rparr>))
                 ev EVLIST_TIMEOUT))"

definition event_add :: "'b world \<Rightarrow> evref \<Rightarrow> timeval option \<Rightarrow> fault + (int \<times> 'b world)" where
  "event_add s ev tv =
     (if ev_base (evs s ev) = None then Inl Null_base
      else
        case event_add_reserve s ev tv of
          (r0, s0) \<Rightarrow>
            if r0 = - 1 then Inr (- 1, s0)
            else
              (case event_add_io s0 ev of
                 Inl f \<Rightarrow> Inl f
               | Inr (res, s1) \<Rightarrow>
                   (case tv of
                      None \<Rightarrow> Inr (res, s1)
                    | Some t \<Rightarrow>
                        if res \<noteq> - 1
                        then (case event_add_timeout s1 ev t of
                                Inl f \<Rightarrow> Inl f
                              | Inr s2 \<Rightarrow> Inr (res, s2))
                        else Inr (res, s1))))"

definition event_del :: "'b world \<Rightarrow> evref \<Rightarrow> fault + (int \<times> 'b world)" where
  "event_del s ev =
     (if ev_base (evs s ev) = None then Inr (- 1, s)
      else
        let s0 = abort_loop s ev in
        case (if EVLIST_TIMEOUT \<in> ev_flags (evs s0 ev)
              then event_queue_remove s0 ev EVLIST_TIMEOUT else Inr s0) of
          Inl f \<Rightarrow> Inl f
        | Inr s1 \<Rightarrow>
            (case (if EVLIST_ACTIVE \<in> ev_flags (evs s1 ev)
                   then event_queue_remove s1 ev EVLIST_ACTIVE else Inr s1) of
               Inl f \<Rightarrow> Inl f
             | Inr s2 \<Rightarrow>
                 if EVLIST_INSERTED \<in> ev_flags (evs s2 ev)
                 then (case event_queue_remove s2 ev EVLIST_INSERTED of
                         Inl f \<Rightarrow> Inl f
                       | Inr s3 \<Rightarrow>
                           (case evsel_del (evsel (base s3)) (evbase (base s3)) ev (evs s3 ev) of
                              (r, eb) \<Rightarrow> Inr (r, s3\<lparr>base := (base s3)\<lparr>evbase := eb\<rparr>\<rparr>)))
                 else Inr (0, s2)))"

text \<open>
  \<^verbatim>\<open>event_active(ev, res, ncalls)\<close>. The masks are sets, so \<^verbatim>\<open>ev->ev_res |= res\<close> is a union.
  For an event that is not yet active, \<^verbatim>\<open>event_queue_insert(ev->ev_base, ...)\<close> writes the
  counters of the loop through \<^verbatim>\<open>ev_base\<close>, with no test of the pointer.
\<close>

definition event_active :: "'b world \<Rightarrow> evref \<Rightarrow> evmask set \<Rightarrow> 16 word \<Rightarrow> fault + 'b world" where
  "event_active s ev res ncalls =
     (let e = evs s ev in
      if EVLIST_ACTIVE \<in> ev_flags e
      then Inr (put_event s ev (e\<lparr>ev_res := ev_res e \<union> res\<rparr>))
      else if ev_base e = None then Inl Null_base
      else event_queue_insert
             (put_event s ev (e\<lparr>ev_res := res, ev_ncalls := ncalls, ev_pncalls := None\<rparr>))
             ev EVLIST_ACTIVE)"

text \<open>
  \<^verbatim>\<open>timeout_correct(base, tv)\<close>. The loop over \<^verbatim>\<open>base->timeheap.p[0 .. n)\<close> subtracts \<^verbatim>\<open>off\<close>
  from the deadline of the event each slot points to. The out-parameter \<^verbatim>\<open>tv\<close> is returned
  with the memory; \<open>tv0\<close> is what it held before.
\<close>

definition shift_timeout :: "timeval \<Rightarrow> (evref \<Rightarrow> event) \<Rightarrow> evref \<Rightarrow> (evref \<Rightarrow> event)" where
  "shift_timeout off m e = m(e := (m e)\<lparr>ev_timeout := ev_timeout (m e) - off\<rparr>)"

definition timeout_correct :: "'b world \<Rightarrow> timeval \<Rightarrow> 'b world \<times> timeval" where
  "timeout_correct s tv0 =
     (if use_monotonic s then (s, tv0)
      else
        let tv = gettime s in
        if event_tv (base s) \<le> tv
        then (s\<lparr>base := (base s)\<lparr>event_tv := tv\<rparr>\<rparr>, tv)
        else
          let off = event_tv (base s) - tv in
          (s\<lparr>evs := foldl (shift_timeout off) (evs s) (heap_p (timeheap (base s))),
             base := (base s)\<lparr>event_tv := tv\<rparr>\<rparr>, tv))"

text \<open>
  \<^verbatim>\<open>event_process_active\<close>. A callback is C code that may change any of the memory; it is a
  function on the memory, found through the table \<open>cbs\<close> by the function pointer
  \<open>ev_callback\<close>, and it is assumed to return. The loops may not end (a callback can
  activate its own event again), so they take fuel, and running out of fuel is the
  result \<open>None\<close>. So that what ran, and in which memory, can be stated, the drain returns
  the list of the callback invocations it made, in order, also when it runs out of fuel.
\<close>

type_synonym 'b callback = "int \<Rightarrow> evmask set \<Rightarrow> nat \<Rightarrow> 'b world \<Rightarrow> 'b world"

record 'b call =
  c_ev :: evref
  c_head :: "'b world"
  c_first :: bool
  c_pre :: "'b world"
  c_post :: "'b world"

text \<open>
  The inner loop \<^verbatim>\<open>while (ncalls) { ncalls--; ev->ev_ncalls = ncalls; callback; ... }\<close>. The
  local \<^verbatim>\<open>ncalls\<close> lives at address \<open>pn\<close>; \<open>call_enter\<close> is the two assignments before the
  call and \<open>stop_requested\<close> the test \<^verbatim>\<open>event_gotsig || base->event_break\<close> after it. The
  result says whether the loop left through the \<^verbatim>\<open>return\<close> (\<open>True\<close>). \<open>h\<close> is the memory at
  the time \<open>ev\<close> was taken from the queue and \<open>first\<close> tells the first invocation for that
  event; both are only recorded in the list.
\<close>

definition call_enter :: "'b world \<Rightarrow> nat \<Rightarrow> evref \<Rightarrow> 'b world" where
  "call_enter s pn ev =
     put_event (s\<lparr>locals := (locals s)(pn := locals s pn - 1)\<rparr>) ev
       ((evs s ev)\<lparr>ev_ncalls := locals s pn - 1\<rparr>)"

definition stop_requested :: "'b world \<Rightarrow> bool" where
  "stop_requested s = (event_gotsig s \<or> event_break (base s))"

fun call_loop ::
  "nat \<Rightarrow> (nat \<Rightarrow> 'b callback) \<Rightarrow> nat \<Rightarrow> evref \<Rightarrow> 'b world \<Rightarrow> bool \<Rightarrow> 'b world
     \<Rightarrow> 'b call list \<times> (bool \<times> 'b world) option" where
  "call_loop 0 cbs pn ev h first s =
     (if locals s pn = 0 then ([], Some (False, s)) else ([], None))"
| "call_loop (Suc n) cbs pn ev h first s =
     (if locals s pn = 0 then ([], Some (False, s))
      else
        let s1 = call_enter s pn ev;
            e = evs s1 ev;
            s2 = cbs (ev_callback e) (ev_fd e) (ev_res e) (ev_arg e) s1;
            c = \<lparr>c_ev = ev, c_head = h, c_first = first, c_pre = s1, c_post = s2\<rparr>
        in if stop_requested s2 then ([c], Some (True, s2))
           else (case call_loop n cbs pn ev h False s2 of (log, r) \<Rightarrow> (c # log, r)))"

definition process_unlink :: "'b world \<Rightarrow> evref \<Rightarrow> fault + 'b world" where
  "process_unlink s ev =
     (if EV_PERSIST \<in> ev_events (evs s ev)
      then event_queue_remove s ev EVLIST_ACTIVE
      else (case event_del s ev of Inl f \<Rightarrow> Inl f | Inr (r, s1) \<Rightarrow> Inr s1))"

definition process_setup :: "'b world \<Rightarrow> nat \<Rightarrow> evref \<Rightarrow> 'b world" where
  "process_setup s pn ev =
     put_event (s\<lparr>locals := (locals s)(pn := ev_ncalls (evs s ev))\<rparr>) ev
       ((evs s ev)\<lparr>ev_pncalls := Some pn\<rparr>)"

definition clear_pncalls :: "'b world \<Rightarrow> evref \<Rightarrow> 'b world" where
  "clear_pncalls s ev = put_event s ev ((evs s ev)\<lparr>ev_pncalls := None\<rparr>)"

text \<open>
  The outer loop \<^verbatim>\<open>for (ev = TAILQ_FIRST(activeq); ev; ev = TAILQ_FIRST(activeq))\<close>. The
  pointer \<^verbatim>\<open>activeq\<close> is the index \<open>i\<close> of the queue; it dangles when a callback has resized
  the array of queues below \<open>i\<close>.
\<close>

fun process_queue ::
  "nat \<Rightarrow> (nat \<Rightarrow> 'b callback) \<Rightarrow> nat \<Rightarrow> nat \<Rightarrow> 'b world
     \<Rightarrow> 'b call list \<times> (fault + 'b world) option" where
  "process_queue 0 cbs pn i s =
     (if length (activequeues (base s)) \<le> i then ([], Some (Inl Bad_queue_index))
      else (case activequeues (base s) ! i of
              [] \<Rightarrow> ([], Some (Inr s))
            | ev # rest \<Rightarrow> ([], None)))"
| "process_queue (Suc n) cbs pn i s =
     (if length (activequeues (base s)) \<le> i then ([], Some (Inl Bad_queue_index))
      else (case activequeues (base s) ! i of
              [] \<Rightarrow> ([], Some (Inr s))
            | ev # rest \<Rightarrow>
                (case process_unlink s ev of
                   Inl f \<Rightarrow> ([], Some (Inl f))
                 | Inr s1 \<Rightarrow>
                     (case call_loop n cbs pn ev s True (process_setup s1 pn ev) of
                        (log, None) \<Rightarrow> (log, None)
                      | (log, Some (stop, s2)) \<Rightarrow>
                          if stop then (log, Some (Inr (clear_pncalls s2 ev)))
                          else (case process_queue n cbs pn i (clear_pncalls s2 ev) of
                                  (log', r) \<Rightarrow> (log @ log', r))))))"

text \<open>
  The search \<^verbatim>\<open>for (i = 0; i < base->nactivequeues; ++i)\<close> for the first queue with a head.
\<close>

fun first_active :: "evref list list \<Rightarrow> nat option" where
  "first_active [] = None"
| "first_active (q # qs) = (if q \<noteq> [] then Some 0 else map_option Suc (first_active qs))"

definition event_process_active ::
  "nat \<Rightarrow> (nat \<Rightarrow> 'b callback) \<Rightarrow> nat \<Rightarrow> 'b world \<Rightarrow> 'b call list \<times> (fault + 'b world) option" where
  "event_process_active fuel cbs pn s =
     (case first_active (activequeues (base s)) of
        None \<Rightarrow> ([], Some (Inl Assert_failed))
      | Some i \<Rightarrow> process_queue fuel cbs pn i s)"

section \<open>Sequences of operations and the quantities the spec speaks of\<close>

datatype op = Add evref "timeval option" | Del evref

fun op_event :: "op \<Rightarrow> evref" where
  "op_event (Add ev tv) = ev"
| "op_event (Del ev) = ev"

fun apply_op :: "'b world \<Rightarrow> op \<Rightarrow> fault + 'b world" where
  "apply_op s (Add ev tv) = (case event_add s ev tv of Inl f \<Rightarrow> Inl f | Inr (r, s') \<Rightarrow> Inr s')"
| "apply_op s (Del ev) = (case event_del s ev of Inl f \<Rightarrow> Inl f | Inr (r, s') \<Rightarrow> Inr s')"

fun run_ops :: "'b world \<Rightarrow> op list \<Rightarrow> fault + 'b world" where
  "run_ops s [] = Inr s"
| "run_ops s (x # xs) = (case apply_op s x of Inl f \<Rightarrow> Inl f | Inr s' \<Rightarrow> run_ops s' xs)"

text \<open>
  The spec's count: the events of \<open>U\<close> that are not internal and have \<open>INSERTED\<close> or
  \<open>TIMEOUT\<close> set, each counted once.
\<close>

definition spec_event_count :: "(evref \<Rightarrow> event) \<Rightarrow> evref list \<Rightarrow> int" where
  "spec_event_count m U =
     int (length (filter (\<lambda>x. EVLIST_INTERNAL \<notin> ev_flags (m x) \<and>
        (EVLIST_INSERTED \<in> ev_flags (m x) \<or> EVLIST_TIMEOUT \<in> ev_flags (m x))) U))"

text \<open>
  The queue memberships of an event: one for each of \<open>INSERTED\<close>, \<open>TIMEOUT\<close> and \<open>ACTIVE\<close>
  that is set, none for an internal event.
\<close>

definition memberships :: "event \<Rightarrow> int" where
  "memberships e =
     (if EVLIST_INTERNAL \<in> ev_flags e then 0
      else (if EVLIST_INSERTED \<in> ev_flags e then 1 else 0) +
           (if EVLIST_TIMEOUT \<in> ev_flags e then 1 else 0) +
           (if EVLIST_ACTIVE \<in> ev_flags e then 1 else 0))"

definition membership_count :: "(evref \<Rightarrow> event) \<Rightarrow> evref list \<Rightarrow> int" where
  "membership_count m U = sum_list (map (\<lambda>x. memberships (m x)) U)"

text \<open>
  The array of a binary min-heap: no slot holds an earlier deadline than its parent
  slot \<open>(i - 1) div 2\<close>.
\<close>

definition heap_ordered :: "(evref \<Rightarrow> event) \<Rightarrow> evref list \<Rightarrow> bool" where
  "heap_ordered m p =
     list_all (\<lambda>i. ev_timeout (m (p ! ((i - 1) div 2))) \<le> ev_timeout (m (p ! i))) [1..<length p]"

text \<open>
  The links of one event agree with its flags: the registry, the heap and the queues hold
  no address twice, and the event is in the registry, in the heap or in a priority queue
  only when it has the flag for it, and only in the queue of its priority.
\<close>

definition event_links_ok :: "'b world \<Rightarrow> evref \<Rightarrow> bool" where
  "event_links_ok s ev =
     (distinct (eventqueue (base s)) \<and>
      distinct (heap_p (timeheap (base s))) \<and>
      list_all distinct (activequeues (base s)) \<and>
      (ev \<in> set (eventqueue (base s)) \<longrightarrow> EVLIST_INSERTED \<in> ev_flags (evs s ev)) \<and>
      (ev \<in> set (heap_p (timeheap (base s))) \<longrightarrow> EVLIST_TIMEOUT \<in> ev_flags (evs s ev)) \<and>
      list_all (\<lambda>j. ev \<in> set (activequeues (base s) ! j) \<longrightarrow>
                  j = ev_pri (evs s ev) \<and> EVLIST_ACTIVE \<in> ev_flags (evs s ev))
        [0..<length (activequeues (base s))])"

section \<open>Example states\<close>

definition accepting_ops :: "unit eventop" where
  "accepting_ops = \<lparr>evsel_add = (\<lambda>b ev e. (0, b)), evsel_del = (\<lambda>b ev e. (0, b))\<rparr>"

definition refusing_ops :: "unit eventop" where
  "refusing_ops = \<lparr>evsel_add = (\<lambda>b ev e. (- 1, b)), evsel_del = (\<lambda>b ev e. (- 1, b))\<rparr>"

definition read_event :: event where
  "read_event = \<lparr>ev_base = Some (), ev_fd = 3, ev_events = {EV_READ}, ev_ncalls = 0,
     ev_pncalls = None, ev_timeout = 0, ev_pri = 0, ev_callback = 0, ev_arg = 0,
     ev_res = {}, ev_flags = {EVLIST_INIT}\<rparr>"

definition new_base :: "unit event_base" where
  "new_base = \<lparr>evsel = accepting_ops, evbase = (), event_count = 0, event_count_active = 0,
     event_gotterm = False, event_break = False, activequeues = [[]], eventqueue = [],
     event_tv = 1000, timeheap = \<lparr>heap_p = [], heap_a = 0\<rparr>, tv_cache = 0\<rparr>"

definition new_world :: "unit world" where
  "new_world = \<lparr>evs = (\<lambda>x. read_event), base = new_base, locals = (\<lambda>a. 0),
     event_gotsig = False, use_monotonic = False, sysclock = 1000, alloc_ok = (\<lambda>n. True)\<rparr>"

definition unbound_world :: "unit world" where
  "unbound_world = new_world\<lparr>evs := (\<lambda>x. read_event\<lparr>ev_base := None\<rparr>)\<rparr>"

definition inflight_world :: "unit world" where
  "inflight_world =
     new_world\<lparr>evs := (\<lambda>x. read_event\<lparr>ev_ncalls := 2, ev_pncalls := Some 0\<rparr>), locals := (\<lambda>a. 2)\<rparr>"

definition active_world :: "unit world" where
  "active_world =
     new_world\<lparr>evs := (\<lambda>x. read_event)
                  (0 := read_event\<lparr>ev_flags := {EVLIST_INIT, EVLIST_INSERTED, EVLIST_ACTIVE},
                                ev_res := {EV_READ}, ev_ncalls := 1\<rparr>),
               base := new_base\<lparr>event_count := 2, event_count_active := 1,
                                activequeues := [[0]], eventqueue := [0]\<rparr>\<rparr>"

definition oom_world :: "unit world" where
  "oom_world = new_world\<lparr>alloc_ok := (\<lambda>n. False)\<rparr>"

definition refusing_world :: "unit world" where
  "refusing_world = new_world\<lparr>base := new_base\<lparr>evsel := refusing_ops\<rparr>\<rparr>"

text \<open>The memory after \<^verbatim>\<open>event_add\<close> of event 0 with a timeout of 5 on \<open>new_world\<close>.\<close>

definition armed_world :: "unit world" where
  "armed_world =
     new_world\<lparr>evs := (\<lambda>x. read_event)
                  (0 := read_event\<lparr>ev_timeout := 1005,
                                ev_flags := {EVLIST_TIMEOUT, EVLIST_INSERTED, EVLIST_INIT}\<rparr>),
               base := new_base\<lparr>event_count := 2, eventqueue := [0],
                                timeheap := \<lparr>heap_p = [0], heap_a = 1\<rparr>\<rparr>\<rparr>"

definition timer_event :: "timeval \<Rightarrow> event" where
  "timer_event d = \<lparr>ev_base = Some (), ev_fd = - 1, ev_events = {}, ev_ncalls = 0,
     ev_pncalls = None, ev_timeout = d, ev_pri = 0, ev_callback = 0, ev_arg = 0,
     ev_res = {}, ev_flags = {EVLIST_TIMEOUT, EVLIST_INIT}\<rparr>"

text \<open>
  Two timers with deadlines 1005 and 1500, registered when the wall clock read 1000; the
  clock has since been set back to 400.
\<close>

definition skewed_world :: "unit world" where
  "skewed_world =
     new_world\<lparr>evs := (\<lambda>x. read_event)(0 := timer_event 1005, 1 := timer_event 1500),
               base := new_base\<lparr>event_count := 2,
                                timeheap := \<lparr>heap_p = [0, 1], heap_a = 8\<rparr>\<rparr>,
               sysclock := 400\<rparr>"

text \<open>
  On a loop whose backend refuses every registration: event 0 after
  \<^verbatim>\<open>event_active(ev, EV_TIMEOUT, 1)\<close>, and then after \<^verbatim>\<open>event_add\<close> with a timeout of 5.
\<close>

definition fired_world :: "unit world" where
  "fired_world =
     refusing_world\<lparr>evs := (\<lambda>x. read_event)
                  (0 := read_event\<lparr>ev_ncalls := 1, ev_res := {EV_TIMEOUT},
                                ev_flags := {EVLIST_ACTIVE, EVLIST_INIT}\<rparr>),
               base := (base refusing_world)\<lparr>event_count := 1, event_count_active := 1,
                                activequeues := [[0]]\<rparr>\<rparr>"

definition lone_timer_world :: "unit world" where
  "lone_timer_world =
     refusing_world\<lparr>evs := (\<lambda>x. read_event)
                  (0 := read_event\<lparr>ev_ncalls := 1, ev_res := {EV_TIMEOUT}, ev_timeout := 1005,
                                ev_flags := {EVLIST_TIMEOUT, EVLIST_INIT}\<rparr>),
               base := (base refusing_world)\<lparr>event_count := 1,
                                timeheap := \<lparr>heap_p = [0], heap_a = 1\<rparr>\<rparr>\<rparr>"

text \<open>
  A loop with three active events: event 0, persistent, and event 1, with a timer, both of
  priority 0, and event 2 of priority 1. The callbacks of \<open>quiet_cbs\<close> change nothing; those
  of \<open>breaking_cbs\<close> are \<^verbatim>\<open>event_base_loopbreak\<close>. \<open>quiet_run\<close> and \<open>breaking_run\<close> are one
  drain of that loop with each table.
\<close>

definition ready_world :: "unit world" where
  "ready_world =
     new_world\<lparr>evs := (\<lambda>x. read_event)
                  (0 := read_event\<lparr>ev_events := {EV_READ, EV_PERSIST}, ev_res := {EV_READ},
                                ev_ncalls := 1,
                                ev_flags := {EVLIST_INIT, EVLIST_INSERTED, EVLIST_ACTIVE}\<rparr>,
                   1 := read_event\<lparr>ev_res := {EV_READ}, ev_ncalls := 1, ev_timeout := 1005,
                                ev_flags := {EVLIST_INIT, EVLIST_INSERTED, EVLIST_TIMEOUT,
                                             EVLIST_ACTIVE}\<rparr>,
                   2 := read_event\<lparr>ev_res := {EV_READ}, ev_ncalls := 1, ev_pri := 1,
                                ev_flags := {EVLIST_INIT, EVLIST_INSERTED, EVLIST_ACTIVE}\<rparr>),
               base := new_base\<lparr>event_count := 7, event_count_active := 3,
                                activequeues := [[0, 1], [2]], eventqueue := [0, 1, 2],
                                timeheap := \<lparr>heap_p = [1], heap_a = 1\<rparr>\<rparr>\<rparr>"

definition quiet_cbs :: "nat \<Rightarrow> unit callback" where
  "quiet_cbs f fd res arg s = s"

definition breaking_cbs :: "nat \<Rightarrow> unit callback" where
  "breaking_cbs f fd res arg s = s\<lparr>base := (base s)\<lparr>event_break := True\<rparr>\<rparr>"

definition quiet_run :: "unit call list \<times> (fault + unit world) option" where
  "quiet_run = event_process_active (Suc (Suc (Suc 0))) quiet_cbs 0 ready_world"

definition breaking_run :: "unit call list \<times> (fault + unit world) option" where
  "breaking_run = event_process_active (Suc (Suc (Suc 0))) breaking_cbs 0 ready_world"

lemmas drain_defs = event_process_active_def process_unlink_def process_setup_def
  clear_pncalls_def call_enter_def stop_requested_def ready_world_def quiet_cbs_def
  breaking_cbs_def

lemmas example_defs = new_world_def new_base_def read_event_def accepting_ops_def
  refusing_ops_def unbound_world_def inflight_world_def active_world_def oom_world_def
  refusing_world_def armed_world_def timer_event_def skewed_world_def fired_world_def
  lone_timer_world_def

lemmas function_defs = event_add_def event_add_reserve_def event_add_io_def
  event_add_timeout_def event_del_def event_queue_insert_def event_queue_remove_def
  min_heap_reserve_def min_heap_size_def min_heap_push_def min_heap_erase_def put_event_def
  gettime_def tv_sec_def abort_loop_def Let_def

section \<open>Frame lemmas\<close>

lemma gettime_put_event: "gettime (put_event s ev e) = gettime s"
  by (simp add: gettime_def put_event_def)

lemma abort_loop_frame:
  "evs (abort_loop s ev) = evs s" "base (abort_loop s ev) = base s"
  by (simp_all add: abort_loop_def split: option.splits)

lemma event_queue_remove_effect:
  assumes "event_queue_remove s ev q = Inr s'"
  shows "q \<in> ev_flags (evs s ev)"
    and "evs s' = (evs s)(ev := (evs s ev)\<lparr>ev_flags := ev_flags (evs s ev) - {q}\<rparr>)"
    and "eventqueue (base s') =
           (if q = EVLIST_INSERTED then remove1 ev (eventqueue (base s)) else eventqueue (base s))"
    and "timeheap (base s') =
           (if q = EVLIST_TIMEOUT then min_heap_erase (timeheap (base s)) ev else timeheap (base s))"
    and "activequeues (base s') =
           (if q = EVLIST_ACTIVE
            then (activequeues (base s))
                   [ev_pri (evs s ev) := remove1 ev (activequeues (base s) ! ev_pri (evs s ev))]
            else activequeues (base s))"
    and "locals s' = locals s"
    and "tv_cache (base s') = tv_cache (base s)"
    and "sysclock s' = sysclock s"
    and "evsel (base s') = evsel (base s)"
    and "evbase (base s') = evbase (base s)"
  using assms
  by (cases q; simp add: event_queue_remove_def put_event_def Let_def split: if_splits; fastforce)+

lemma event_queue_remove_ok:
  assumes "q \<in> ev_flags (evs s ev)"
    and "q = EVLIST_INSERTED \<or> q = EVLIST_TIMEOUT \<or>
         (q = EVLIST_ACTIVE \<and> ev_pri (evs s ev) < length (activequeues (base s)))"
  shows "\<exists>s'. event_queue_remove s ev q = Inr s'"
  using assms by (auto simp add: event_queue_remove_def Let_def)

lemma event_queue_insert_effect:
  assumes "event_queue_insert s ev q = Inr s'" and "q \<notin> ev_flags (evs s ev)"
  shows "evs s' = (evs s)(ev := (evs s ev)\<lparr>ev_flags := insert q (ev_flags (evs s ev))\<rparr>)"
    and "eventqueue (base s') =
           (if q = EVLIST_INSERTED then eventqueue (base s) @ [ev] else eventqueue (base s))"
    and "timeheap (base s') =
           (if q = EVLIST_TIMEOUT then min_heap_push (evs s') (timeheap (base s)) ev
            else timeheap (base s))"
    and "activequeues (base s') =
           (if q = EVLIST_ACTIVE
            then (activequeues (base s))
                   [ev_pri (evs s ev) := activequeues (base s) ! ev_pri (evs s ev) @ [ev]]
            else activequeues (base s))"
    and "locals s' = locals s"
    and "tv_cache (base s') = tv_cache (base s)"
    and "sysclock s' = sysclock s"
  using assms
  by (cases q; simp add: event_queue_insert_def put_event_def Let_def split: if_splits; fastforce)+

lemma event_queue_insert_ok:
  assumes "q \<notin> ev_flags (evs s ev)"
    and "q = EVLIST_INSERTED \<or> q = EVLIST_TIMEOUT \<or>
         (q = EVLIST_ACTIVE \<and> ev_pri (evs s ev) < length (activequeues (base s)))"
  shows "\<exists>s'. event_queue_insert s ev q = Inr s'"
  using assms by (auto simp add: event_queue_insert_def Let_def)

lemma gettime_cong:
  "tv_cache (base s') = tv_cache (base s) \<Longrightarrow> sysclock s' = sysclock s \<Longrightarrow> gettime s' = gettime s"
  by (simp add: gettime_def)

lemma abort_loop_clock: "sysclock (abort_loop s ev) = sysclock s"
  by (simp add: abort_loop_def split: option.splits)

section \<open>The event count\<close>

lemma membership_count_other:
  "ev \<notin> set U \<Longrightarrow> membership_count (m(ev := e)) U = membership_count m U"
  by (induction U) (auto simp add: membership_count_def)

lemma membership_count_update:
  "distinct U \<Longrightarrow> ev \<in> set U \<Longrightarrow>
   membership_count (m(ev := e)) U = membership_count m U - memberships (m ev) + memberships e"
proof (induction U)
  case Nil
  then show ?case by simp
next
  case (Cons x U)
  show ?case
  proof (cases "x = ev")
    case True
    with Cons.prems have "ev \<notin> set U" by simp
    then have "membership_count (m(ev := e)) U = membership_count m U"
      by (rule membership_count_other)
    with True show ?thesis by (simp add: membership_count_def)
  next
    case False
    with Cons show ?thesis by (simp add: membership_count_def)
  qed
qed

lemma membership_count_same:
  "memberships e = memberships (m ev) \<Longrightarrow> distinct U \<Longrightarrow>
   membership_count (m(ev := e)) U = membership_count m U"
  by (cases "ev \<in> set U") (simp_all add: membership_count_update membership_count_other)

lemma event_queue_insert_gap:
  assumes "event_queue_insert s ev q = Inr s'" "distinct U" "ev \<in> set U"
  shows "event_count (base s') - membership_count (evs s') U =
         event_count (base s) - membership_count (evs s) U"
  using assms
  by (cases q)
     (auto simp add: event_queue_insert_def put_event_def Let_def membership_count_update
        memberships_def split: if_splits)

lemma event_queue_remove_gap:
  assumes "event_queue_remove s ev q = Inr s'" "distinct U" "ev \<in> set U"
  shows "event_count (base s') - membership_count (evs s') U =
         event_count (base s) - membership_count (evs s) U"
  using assms
  by (cases q)
     (auto simp add: event_queue_remove_def put_event_def Let_def membership_count_update
        memberships_def split: if_splits)

lemma put_timeout_gap:
  assumes "distinct U"
  shows "event_count (base (put_event s ev ((evs s ev)\<lparr>ev_timeout := t\<rparr>))) -
           membership_count (evs (put_event s ev ((evs s ev)\<lparr>ev_timeout := t\<rparr>))) U =
         event_count (base s) - membership_count (evs s) U"
  using assms by (simp add: put_event_def membership_count_same memberships_def)

lemma event_add_timeout_gap:
  assumes "event_add_timeout s ev t = Inr s'" "distinct U" "ev \<in> set U"
  shows "event_count (base s') - membership_count (evs s') U =
         event_count (base s) - membership_count (evs s) U"
proof -
  from assms(1) obtain s1 s2 where
    s1: "(if EVLIST_TIMEOUT \<in> ev_flags (evs s ev)
            then event_queue_remove s ev EVLIST_TIMEOUT else Inr s) = Inr s1"
    and s2: "(if EVLIST_ACTIVE \<in> ev_flags (evs s1 ev) \<and> EV_TIMEOUT \<in> ev_res (evs s1 ev)
                 then event_queue_remove (abort_loop s1 ev) ev EVLIST_ACTIVE else Inr s1) = Inr s2"
    and s3: "event_queue_insert
                 (put_event s2 ev ((evs s2 ev)\<lparr>ev_timeout := gettime s2 + t\<rparr>))
                 ev EVLIST_TIMEOUT = Inr s'"
    by (auto simp add: event_add_timeout_def split: sum.splits)
  have g1: "event_count (base s1) - membership_count (evs s1) U =
         event_count (base s) - membership_count (evs s) U"
    using s1 assms(2,3) by (auto split: if_splits dest: event_queue_remove_gap)
  have g2: "event_count (base s2) - membership_count (evs s2) U =
         event_count (base s1) - membership_count (evs s1) U"
    using s2 assms(2,3) event_queue_remove_gap[of "abort_loop s1 ev" ev EVLIST_ACTIVE s2 U]
    by (auto simp add: abort_loop_frame split: if_splits)
  have g3: "event_count (base s') - membership_count (evs s') U =
         event_count (base s2) - membership_count (evs s2) U"
    using event_queue_insert_gap[OF s3 assms(2,3)] put_timeout_gap[OF assms(2), of s2 ev]
    by simp
  from g1 g2 g3 show ?thesis by simp
qed

lemma event_add_io_gap:
  assumes "event_add_io s ev = Inr (r, s')" "distinct U" "ev \<in> set U"
  shows "event_count (base s') - membership_count (evs s') U =
         event_count (base s) - membership_count (evs s) U"
proof (cases "ev_events (evs s ev) \<inter> {EV_READ, EV_WRITE, EV_SIGNAL} \<noteq> {} \<and>
         ev_flags (evs s ev) \<inter> {EVLIST_INSERTED, EVLIST_ACTIVE} = {}")
  case False
  with assms(1) show ?thesis by (auto simp add: event_add_io_def Let_def)
next
  case True
  obtain res eb where reb: "evsel_add (evsel (base s)) (evbase (base s)) ev (evs s ev) = (res, eb)"
    by (cases "evsel_add (evsel (base s)) (evbase (base s)) ev (evs s ev)")
  show ?thesis
  proof (cases "res = - 1")
    case True
    with \<open>_ \<and> _\<close> reb assms(1) show ?thesis by (auto simp add: event_add_io_def Let_def)
  next
    case False
    with \<open>_ \<and> _\<close> reb assms(1)
    have "event_queue_insert (s\<lparr>base := (base s)\<lparr>evbase := eb\<rparr>\<rparr>) ev EVLIST_INSERTED = Inr s'"
      by (auto simp add: event_add_io_def Let_def split: sum.splits)
    from event_queue_insert_gap[OF this assms(2,3)] show ?thesis by simp
  qed
qed

lemma event_add_reserve_frame:
  assumes "event_add_reserve s ev tv = (r0, s0)"
  shows "evs s0 = evs s"
    and "locals s0 = locals s"
    and "heap_p (timeheap (base s0)) = heap_p (timeheap (base s))"
    and "evsel (base s0) = evsel (base s)"
    and "evbase (base s0) = evbase (base s)"
    and "eventqueue (base s0) = eventqueue (base s)"
    and "activequeues (base s0) = activequeues (base s)"
    and "event_count (base s0) = event_count (base s)"
    and "event_count_active (base s0) = event_count_active (base s)"
    and "tv_cache (base s0) = tv_cache (base s)"
    and "sysclock s0 = sysclock s"
  using assms
  by (auto simp add: event_add_reserve_def min_heap_reserve_def split: if_splits prod.splits)

lemma event_add_steps:
  assumes "event_add s ev tv = Inr (r, s')"
  shows "\<exists>r0 s0. ev_base (evs s ev) \<noteq> None \<and>
    event_add_reserve s ev tv = (r0, s0) \<and>
    (r0 = - 1 \<longrightarrow> r = - 1 \<and> s' = s0) \<and>
    (r0 \<noteq> - 1 \<longrightarrow> (\<exists>res s1. event_add_io s0 ev = Inr (res, s1) \<and> r = res \<and>
           (case tv of
              None \<Rightarrow> s' = s1
            | Some t \<Rightarrow> if res \<noteq> - 1 then event_add_timeout s1 ev t = Inr s' else s' = s1)))"
proof -
  from assms have b: "ev_base (evs s ev) \<noteq> None"
    by (cases "ev_base (evs s ev) = None") (simp_all add: event_add_def)
  obtain r0 s0 where rs: "event_add_reserve s ev tv = (r0, s0)"
    by (cases "event_add_reserve s ev tv")
  have 1: "r = - 1 \<and> s' = s0" if "r0 = - 1"
    using assms b rs that by (simp add: event_add_def)
  have 2: "\<exists>res s1. event_add_io s0 ev = Inr (res, s1) \<and> r = res \<and>
           (case tv of
              None \<Rightarrow> s' = s1
            | Some t \<Rightarrow> if res \<noteq> - 1 then event_add_timeout s1 ev t = Inr s' else s' = s1)"
    if "r0 \<noteq> - 1"
  proof (cases "event_add_io s0 ev")
    case (Inl f)
    with assms b rs that show ?thesis by (simp add: event_add_def)
  next
    case (Inr p)
    obtain res s1 where p: "p = (res, s1)" by (cases p)
    show ?thesis
    proof (cases tv)
      case None
      with assms b rs that Inr p show ?thesis by (simp add: event_add_def)
    next
      case (Some t)
      show ?thesis
      proof (cases "res = - 1")
        case True
        with assms b rs that Inr p Some show ?thesis by (simp add: event_add_def)
      next
        case False
        with assms b rs that Inr p Some show ?thesis
          by (cases "event_add_timeout s1 ev t") (simp_all add: event_add_def)
      qed
    qed
  qed
  from b rs 1 2 show ?thesis by blast
qed

lemma event_add_gap:
  assumes "event_add s ev tv = Inr (r, s')" "distinct U" "ev \<in> set U"
  shows "event_count (base s') - membership_count (evs s') U =
         event_count (base s) - membership_count (evs s) U"
proof -
  from assms(1) obtain r0 s0 where rs: "event_add_reserve s ev tv = (r0, s0)"
    and 1: "r0 = - 1 \<Longrightarrow> r = - 1 \<and> s' = s0"
    and 2: "r0 \<noteq> - 1 \<Longrightarrow> \<exists>res s1. event_add_io s0 ev = Inr (res, s1) \<and> r = res \<and>
           (case tv of
              None \<Rightarrow> s' = s1
            | Some t \<Rightarrow> if res \<noteq> - 1 then event_add_timeout s1 ev t = Inr s' else s' = s1)"
    using event_add_steps by blast
  note g0 = event_add_reserve_frame[OF rs]
  show ?thesis
  proof (cases "r0 = - 1")
    case True
    with 1 g0 show ?thesis by simp
  next
    case False
    from 2[OF False] obtain res s1 where io: "event_add_io s0 ev = Inr (res, s1)"
      and fin: "case tv of
              None \<Rightarrow> s' = s1
            | Some t \<Rightarrow> if res \<noteq> - 1 then event_add_timeout s1 ev t = Inr s' else s' = s1"
      by blast
    note g1 = event_add_io_gap[OF io assms(2,3)]
    show ?thesis
    proof (cases "tv \<noteq> None \<and> res \<noteq> - 1")
      case False
      with fin have "s' = s1" by (auto split: option.splits)
      with g0 g1 show ?thesis by simp
    next
      case True
      then obtain t where t: "tv = Some t" by auto
      with True fin have "event_add_timeout s1 ev t = Inr s'" by simp
      from event_add_timeout_gap[OF this assms(2,3)] g0 g1 show ?thesis by simp
    qed
  qed
qed

lemma event_del_gap:
  assumes "event_del s ev = Inr (r, s')" "distinct U" "ev \<in> set U"
  shows "event_count (base s') - membership_count (evs s') U =
         event_count (base s) - membership_count (evs s) U"
proof (cases "ev_base (evs s ev) = None")
  case True
  with assms(1) show ?thesis by (simp add: event_del_def)
next
  case False
  define s0 where "s0 = abort_loop s ev"
  from False assms(1) obtain s1 s2 where
    s1: "(if EVLIST_TIMEOUT \<in> ev_flags (evs s0 ev)
              then event_queue_remove s0 ev EVLIST_TIMEOUT else Inr s0) = Inr s1"
    and s2: "(if EVLIST_ACTIVE \<in> ev_flags (evs s1 ev)
                   then event_queue_remove s1 ev EVLIST_ACTIVE else Inr s1) = Inr s2"
    and s3: "(if EVLIST_INSERTED \<in> ev_flags (evs s2 ev)
                 then (case event_queue_remove s2 ev EVLIST_INSERTED of
                         Inl f \<Rightarrow> Inl f
                       | Inr s3 \<Rightarrow>
                           (case evsel_del (evsel (base s3)) (evbase (base s3)) ev (evs s3 ev) of
                              (r, eb) \<Rightarrow> Inr (r, s3\<lparr>base := (base s3)\<lparr>evbase := eb\<rparr>\<rparr>)))
                 else Inr (0, s2)) = Inr (r, s')"
    unfolding event_del_def s0_def Let_def by (auto split: sum.splits)
  have g0: "event_count (base s0) - membership_count (evs s0) U =
         event_count (base s) - membership_count (evs s) U"
    by (simp add: s0_def abort_loop_frame)
  have g1: "event_count (base s1) - membership_count (evs s1) U =
         event_count (base s0) - membership_count (evs s0) U"
    using s1 assms(2,3) by (auto split: if_splits dest: event_queue_remove_gap)
  have g2: "event_count (base s2) - membership_count (evs s2) U =
         event_count (base s1) - membership_count (evs s1) U"
    using s2 assms(2,3) by (auto split: if_splits dest: event_queue_remove_gap)
  have g3: "event_count (base s') - membership_count (evs s') U =
         event_count (base s2) - membership_count (evs s2) U"
    using s3 assms(2,3)
    by (auto split: if_splits sum.splits prod.splits dest: event_queue_remove_gap)
  from g0 g1 g2 g3 show ?thesis by simp
qed

text \<open>
  C1 (as amended). \<^verbatim>\<open>event_queue_insert\<close> and \<^verbatim>\<open>event_queue_remove\<close> step \<^verbatim>\<open>event_count\<close> once
  for every queue a non-internal event enters or leaves. So after any sequence of
  \<^verbatim>\<open>event_add\<close> and \<^verbatim>\<open>event_del\<close> on events of \<open>U\<close> that runs without a fatal error,
  \<^verbatim>\<open>event_count\<close> is again the number of queue memberships of the non-internal events of
  \<open>U\<close>: one for each of the flags \<open>INSERTED\<close>, \<open>TIMEOUT\<close> and \<open>ACTIVE\<close> an event has set. An event
  that is both \<open>INSERTED\<close> and \<open>TIMEOUT\<close> counts twice.
\<close>

theorem event_count_counts_memberships:
  assumes "run_ops s ops = Inr s'"
    and "distinct U"
    and "\<forall>x \<in> set ops. op_event x \<in> set U"
    and "event_count (base s) = membership_count (evs s) U"
  shows "event_count (base s') = membership_count (evs s') U"
  using assms
proof (induction ops arbitrary: s)
  case Nil
  then show ?case by simp
next
  case (Cons x ops)
  from Cons.prems(1) obtain s1 where s1: "apply_op s x = Inr s1" and rest: "run_ops s1 ops = Inr s'"
    by (auto split: sum.splits)
  from Cons.prems(3) have xU: "op_event x \<in> set U" by simp
  have "event_count (base s1) - membership_count (evs s1) U =
         event_count (base s) - membership_count (evs s) U"
  proof (cases x)
    case (Add ev tv)
    with s1 xU Cons.prems(2) show ?thesis
      by (auto split: sum.splits dest: event_add_gap)
  next
    case (Del ev)
    with s1 xU Cons.prems(2) show ?thesis
      by (auto split: sum.splits dest: event_del_gap)
  qed
  with Cons.prems(4) have "event_count (base s1) = membership_count (evs s1) U" by simp
  with Cons.IH[OF rest Cons.prems(2)] Cons.prems(3) show ?case by simp
qed

lemma run_ops_armed: "run_ops new_world [Add 0 (Some 5)] = Inr armed_world"
  by (simp add: example_defs function_defs)

theorem event_count_counts_memberships_witness:
  "run_ops new_world [Add 0 (Some 5)] = Inr armed_world \<and> distinct [0 :: nat] \<and>
   event_count (base new_world) = membership_count (evs new_world) [0] \<and>
   event_count (base armed_world) = membership_count (evs armed_world) [0] \<and>
   event_count (base armed_world) = 2"
proof -
  have start: "event_count (base new_world) = membership_count (evs new_world) [0]"
    by (simp add: example_defs membership_count_def memberships_def)
  have "event_count (base armed_world) = membership_count (evs armed_world) [0]"
    by (rule event_count_counts_memberships[OF run_ops_armed _ _ start]) simp_all
  moreover have "event_count (base armed_world) = 2"
    by (simp add: example_defs)
  ultimately show ?thesis
    using start run_ops_armed by (intro conjI) simp_all
qed

text \<open>
  C1 as stated fails. One event with a \<open>READ\<close> interest, added with a timeout to a new
  loop, is in the registry and in the timer heap: \<^verbatim>\<open>event_count\<close> is 2, and the number of
  non-internal events with \<open>INSERTED\<close> or \<open>TIMEOUT\<close> set is 1.
\<close>

theorem event_count_counterexample:
  "run_ops new_world [Add 0 (Some 5)] = Inr armed_world \<and>
   event_count (base armed_world) = 2 \<and>
   spec_event_count (evs armed_world) [0] = 1"
proof (intro conjI)
  show "run_ops new_world [Add 0 (Some 5)] = Inr armed_world"
    by (rule run_ops_armed)
  show "event_count (base armed_world) = 2"
    by (simp add: example_defs)
  show "spec_event_count (evs armed_world) [0] = 1"
    by (simp add: example_defs spec_event_count_def)
qed

section \<open>Failure of \<^verbatim>\<open>event_add\<close>\<close>

lemma event_add_io_refused:
  assumes "ev_events (evs s ev) \<inter> {EV_READ, EV_WRITE, EV_SIGNAL} \<noteq> {}"
    and "ev_flags (evs s ev) \<inter> {EVLIST_INSERTED, EVLIST_ACTIVE} = {}"
    and "fst (evsel_add (evsel (base s)) (evbase (base s)) ev (evs s ev)) = - 1"
  shows "\<exists>eb. event_add_io s ev = Inr (- 1, s\<lparr>base := (base s)\<lparr>evbase := eb\<rparr>\<rparr>)"
proof -
  obtain r eb where reb: "evsel_add (evsel (base s)) (evbase (base s)) ev (evs s ev) = (r, eb)"
    by (cases "evsel_add (evsel (base s)) (evbase (base s)) ev (evs s ev)")
  with assms(3) have "r = - 1" by simp
  with assms(1,2) reb have "event_add_io s ev = Inr (- 1, s\<lparr>base := (base s)\<lparr>evbase := eb\<rparr>\<rparr>)"
    by (simp add: event_add_io_def Let_def)
  then show ?thesis by blast
qed

text \<open>
  C2. For an event that is bound to the loop: when the reservation of a heap slot fails,
  or when the backend's \<^verbatim>\<open>add\<close> is consulted (the event has a \<open>READ\<close>, \<open>WRITE\<close> or \<open>SIGNAL\<close>
  interest and is neither \<open>INSERTED\<close> nor \<open>ACTIVE\<close>) and returns \<^verbatim>\<open>-1\<close>, \<^verbatim>\<open>event_add\<close> returns
  \<^verbatim>\<open>-1\<close> and the events with their flags, the registry, the contents of the timer heap, the
  priority queues and both counters are as before. (\<^verbatim>\<open>event_add\<close> reads the loop through
  \<^verbatim>\<open>ev_base\<close> before anything else, so it has no result for an unbound event.)
\<close>

theorem event_add_failure_atomic:
  assumes "ev_base (evs s ev) \<noteq> None"
    and "(tv \<noteq> None \<and> EVLIST_TIMEOUT \<notin> ev_flags (evs s ev) \<and>
            fst (min_heap_reserve (alloc_ok s) (timeheap (base s))
                   (1 + min_heap_size (timeheap (base s)))) = - 1)
         \<or> (ev_events (evs s ev) \<inter> {EV_READ, EV_WRITE, EV_SIGNAL} \<noteq> {} \<and>
            ev_flags (evs s ev) \<inter> {EVLIST_INSERTED, EVLIST_ACTIVE} = {} \<and>
            fst (evsel_add (evsel (base s)) (evbase (base s)) ev (evs s ev)) = - 1)"
  shows "\<exists>s'. event_add s ev tv = Inr (- 1, s') \<and>
           evs s' = evs s \<and>
           eventqueue (base s') = eventqueue (base s) \<and>
           heap_p (timeheap (base s')) = heap_p (timeheap (base s)) \<and>
           activequeues (base s') = activequeues (base s) \<and>
           event_count (base s') = event_count (base s) \<and>
           event_count_active (base s') = event_count_active (base s) \<and>
           locals s' = locals s"
proof -
  obtain r0 s0 where rs: "event_add_reserve s ev tv = (r0, s0)"
    by (cases "event_add_reserve s ev tv")
  note s0 = event_add_reserve_frame[OF rs]
  show ?thesis
  proof (cases "r0 = - 1")
    case True
    with assms(1) rs have "event_add s ev tv = Inr (- 1, s0)"
      by (simp add: event_add_def)
    with s0 show ?thesis by simp
  next
    case False
    with rs have "\<not> (tv \<noteq> None \<and> EVLIST_TIMEOUT \<notin> ev_flags (evs s ev) \<and>
            fst (min_heap_reserve (alloc_ok s) (timeheap (base s))
                   (1 + min_heap_size (timeheap (base s)))) = - 1)"
      by (auto simp add: event_add_reserve_def split: prod.splits)
    with assms(2) have "ev_events (evs s ev) \<inter> {EV_READ, EV_WRITE, EV_SIGNAL} \<noteq> {} \<and>
      ev_flags (evs s ev) \<inter> {EVLIST_INSERTED, EVLIST_ACTIVE} = {} \<and>
      fst (evsel_add (evsel (base s)) (evbase (base s)) ev (evs s ev)) = - 1"
      by blast
    then have io: "ev_events (evs s0 ev) \<inter> {EV_READ, EV_WRITE, EV_SIGNAL} \<noteq> {}"
      "ev_flags (evs s0 ev) \<inter> {EVLIST_INSERTED, EVLIST_ACTIVE} = {}"
      "fst (evsel_add (evsel (base s0)) (evbase (base s0)) ev (evs s0 ev)) = - 1"
      by (simp_all add: s0)
    from event_add_io_refused[OF io] obtain eb where
      "event_add_io s0 ev = Inr (- 1, s0\<lparr>base := (base s0)\<lparr>evbase := eb\<rparr>\<rparr>)"
      by blast
    with assms(1) rs False
    have "event_add s ev tv = Inr (- 1, s0\<lparr>base := (base s0)\<lparr>evbase := eb\<rparr>\<rparr>)"
      by (cases tv) (simp_all add: event_add_def)
    with s0 show ?thesis by simp
  qed
qed

theorem event_add_failure_atomic_witness:
  "ev_base (evs oom_world 0) \<noteq> None \<and>
   fst (min_heap_reserve (alloc_ok oom_world) (timeheap (base oom_world))
          (1 + min_heap_size (timeheap (base oom_world)))) = - 1 \<and>
   event_add oom_world 0 (Some 5) = Inr (- 1, oom_world) \<and>
   ev_base (evs refusing_world 0) \<noteq> None \<and>
   fst (evsel_add (evsel (base refusing_world)) (evbase (base refusing_world)) 0
          (evs refusing_world 0)) = - 1 \<and>
   event_add refusing_world 0 (Some 5) =
     Inr (- 1, refusing_world\<lparr>base := (base refusing_world)\<lparr>timeheap := \<lparr>heap_p = [], heap_a = 1\<rparr>\<rparr>\<rparr>)"
  using event_add_failure_atomic[of oom_world 0 "Some 5"]
    event_add_failure_atomic[of refusing_world 0 "Some 5"]
  by (simp add: example_defs min_heap_reserve_def min_heap_size_def event_add_def
      event_add_reserve_def event_add_io_def)

section \<open>\<^verbatim>\<open>event_del\<close> and \<^verbatim>\<open>event_active\<close> on events that are not queued, already active, or unbound\<close>

text \<open>
  C8 (as amended). For an event that is bound to the loop and has none of \<open>INSERTED\<close>,
  \<open>TIMEOUT\<close> and \<open>ACTIVE\<close> set, \<^verbatim>\<open>event_del\<close> returns \<^verbatim>\<open>0\<close> and leaves every event and the
  whole \<^verbatim>\<open>struct event_base\<close> as they were; its one effect is to zero the pending-call
  counter of a drain that is in the middle of the event's callbacks.
\<close>

theorem event_del_quiescent:
  assumes "ev_base (evs s ev) \<noteq> None"
    and "ev_flags (evs s ev) \<inter> {EVLIST_INSERTED, EVLIST_TIMEOUT, EVLIST_ACTIVE} = {}"
  shows "event_del s ev =
           Inr (0, s\<lparr>locals := (case ev_pncalls (evs s ev) of
                                   None \<Rightarrow> locals s
                                 | Some pn \<Rightarrow> if ev_ncalls (evs s ev) \<noteq> 0
                                              then (locals s)(pn := 0) else locals s)\<rparr>)"
  using assms by (auto simp add: event_del_def abort_loop_def split: option.splits)

theorem event_del_quiescent_witness:
  "ev_base (evs inflight_world 0) \<noteq> None \<and>
   ev_flags (evs inflight_world 0) \<inter> {EVLIST_INSERTED, EVLIST_TIMEOUT, EVLIST_ACTIVE} = {} \<and>
   event_del inflight_world 0 = Inr (0, inflight_world\<lparr>locals := (\<lambda>a. 2)(0 := 0)\<rparr>)"
  using event_del_quiescent[of inflight_world 0] by (simp add: example_defs)

text \<open>
  C8 as stated fails. An event that was never bound to a loop has none of the three flags
  and \<^verbatim>\<open>event_del\<close> returns \<^verbatim>\<open>-1\<close> for it. And for a bound event without the flags whose
  callbacks are being run (\<open>ev_ncalls = 2\<close>, \<open>ev_pncalls\<close> set), \<^verbatim>\<open>event_del\<close> returns \<^verbatim>\<open>0\<close> but
  writes \<^verbatim>\<open>0\<close> into the drain's counter, which held \<^verbatim>\<open>2\<close>.
\<close>

theorem event_del_quiescent_counterexample:
  "ev_flags (evs unbound_world 0) \<inter> {EVLIST_INSERTED, EVLIST_TIMEOUT, EVLIST_ACTIVE} = {} \<and>
   event_del unbound_world 0 = Inr (- 1, unbound_world) \<and>
   ev_flags (evs inflight_world 0) \<inter> {EVLIST_INSERTED, EVLIST_TIMEOUT, EVLIST_ACTIVE} = {} \<and>
   event_del inflight_world 0 = Inr (0, inflight_world\<lparr>locals := (\<lambda>a. 2)(0 := 0)\<rparr>) \<and>
   locals inflight_world 0 = 2"
  by (simp add: example_defs event_del_def abort_loop_def)

text \<open>
  C9. \<^verbatim>\<open>event_active\<close> on an event that already has \<open>ACTIVE\<close> set adds \<open>res\<close> to \<open>ev_res\<close> and
  changes nothing else: \<open>ncalls\<close> is dropped, \<open>ev_ncalls\<close> and \<open>ev_pncalls\<close> keep their values,
  and the loop, with its priority queues, is untouched.
\<close>

theorem event_active_already_active:
  assumes "EVLIST_ACTIVE \<in> ev_flags (evs s ev)"
  shows "event_active s ev res ncalls =
           Inr (s\<lparr>evs := (evs s)(ev := (evs s ev)\<lparr>ev_res := ev_res (evs s ev) \<union> res\<rparr>)\<rparr>)"
  using assms by (simp add: event_active_def put_event_def Let_def)

theorem event_active_already_active_witness:
  "EVLIST_ACTIVE \<in> ev_flags (evs active_world 0) \<and>
   event_active active_world 0 {EV_WRITE} 5 =
     Inr (active_world\<lparr>evs := (evs active_world)
            (0 := (evs active_world 0)\<lparr>ev_res := {EV_READ, EV_WRITE}\<rparr>)\<rparr>)"
  using event_active_already_active[of active_world 0 "{EV_WRITE}" 5]
  by (simp add: example_defs insert_commute)

text \<open>
  C10. \<^verbatim>\<open>event_del\<close> on an event whose \<open>ev_base\<close> is null returns \<^verbatim>\<open>-1\<close> and changes nothing.
\<close>

theorem event_del_unbound:
  assumes "ev_base (evs s ev) = None"
  shows "event_del s ev = Inr (- 1, s)"
  using assms by (simp add: event_del_def)

theorem event_del_unbound_witness:
  "ev_base (evs unbound_world 0) = None \<and> event_del unbound_world 0 = Inr (- 1, unbound_world)"
  using event_del_unbound[of unbound_world 0] by (simp add: example_defs)

section \<open>Clock correction\<close>

lemma foldl_shift_timeout:
  "distinct xs \<Longrightarrow>
   foldl (shift_timeout off) m xs e =
     (if e \<in> set xs then (m e)\<lparr>ev_timeout := ev_timeout (m e) - off\<rparr> else m e)"
proof (induction xs arbitrary: m)
  case Nil
  then show ?case by simp
next
  case (Cons x xs)
  then show ?case by (auto simp add: shift_timeout_def)
qed

lemma heap_ordered_shift:
  assumes "heap_ordered m p"
    and "\<forall>e \<in> set p. ev_timeout (m' e) = ev_timeout (m e) - off"
  shows "heap_ordered m' p"
proof -
  have "ev_timeout (m' (p ! ((i - 1) div 2))) \<le> ev_timeout (m' (p ! i))"
    if "i \<in> set [1..<length p]" for i
  proof -
    from that have i: "i < length p" "(i - 1) div 2 < length p" by auto
    from assms(1) that have "ev_timeout (m (p ! ((i - 1) div 2))) \<le> ev_timeout (m (p ! i))"
      unfolding heap_ordered_def list_all_iff by blast
    with assms(2) i show ?thesis by (simp add: nth_mem)
  qed
  then show ?thesis unfolding heap_ordered_def list_all_iff by blast
qed

text \<open>
  C6. Without a monotonic clock, when \<^verbatim>\<open>timeout_correct\<close> finds the time \<open>gettime s\<close> before
  \<open>event_tv\<close>, the deadline of every event in the timer heap drops by
  \<open>event_tv - gettime s\<close> and nothing else of any event changes; the heap array is the same,
  any two deadlines of the heap compare as before, and an array that was a min-heap is
  one afterwards. With a monotonic clock, or when the time is not before \<open>event_tv\<close>, no
  event is modified. The slots of the heap array are taken to hold distinct events.
\<close>

theorem timeout_correct_shifts_deadlines:
  assumes "distinct (heap_p (timeheap (base s)))"
    and "timeout_correct s tv0 = (s', tv)"
  shows "(\<not> use_monotonic s \<and> gettime s < event_tv (base s) \<longrightarrow>
            (\<forall>e. evs s' e =
               (if e \<in> set (heap_p (timeheap (base s)))
                then (evs s e)\<lparr>ev_timeout := ev_timeout (evs s e) - (event_tv (base s) - gettime s)\<rparr>
                else evs s e)) \<and>
            timeheap (base s') = timeheap (base s) \<and>
            (\<forall>x \<in> set (heap_p (timeheap (base s))). \<forall>y \<in> set (heap_p (timeheap (base s))).
               (ev_timeout (evs s' x) \<le> ev_timeout (evs s' y)) =
               (ev_timeout (evs s x) \<le> ev_timeout (evs s y))) \<and>
            (heap_ordered (evs s) (heap_p (timeheap (base s))) \<longrightarrow>
               heap_ordered (evs s') (heap_p (timeheap (base s')))))
       \<and> (use_monotonic s \<or> event_tv (base s) \<le> gettime s \<longrightarrow>
            evs s' = evs s \<and> timeheap (base s') = timeheap (base s))"
proof (cases "\<not> use_monotonic s \<and> gettime s < event_tv (base s)")
  case False
  with assms(2) show ?thesis by (auto simp add: timeout_correct_def Let_def split: if_splits)
next
  case True
  define off where "off = event_tv (base s) - gettime s"
  from True assms(2) have s': "s' = s\<lparr>evs := foldl (shift_timeout off) (evs s) (heap_p (timeheap (base s))),
             base := (base s)\<lparr>event_tv := gettime s\<rparr>\<rparr>"
    by (auto simp add: timeout_correct_def Let_def off_def)
  have e: "evs s' e = (if e \<in> set (heap_p (timeheap (base s)))
                then (evs s e)\<lparr>ev_timeout := ev_timeout (evs s e) - off\<rparr> else evs s e)" for e
    by (simp add: s' foldl_shift_timeout[OF assms(1)])
  have h: "timeheap (base s') = timeheap (base s)" by (simp add: s')
  have o: "heap_ordered (evs s') (heap_p (timeheap (base s')))"
    if "heap_ordered (evs s) (heap_p (timeheap (base s)))"
    using that heap_ordered_shift[of "evs s" "heap_p (timeheap (base s))" "evs s'" off]
    by (simp add: e h)
  show ?thesis using True e h o by (simp add: off_def)
qed

theorem timeout_correct_shifts_deadlines_witness:
  "distinct (heap_p (timeheap (base skewed_world))) \<and>
   \<not> use_monotonic skewed_world \<and> gettime skewed_world < event_tv (base skewed_world) \<and>
   heap_ordered (evs skewed_world) [0, 1] \<and>
   ev_timeout (evs (fst (timeout_correct skewed_world 0)) 0) = 405 \<and>
   ev_timeout (evs (fst (timeout_correct skewed_world 0)) 1) = 900 \<and>
   heap_ordered (evs (fst (timeout_correct skewed_world 0))) [0, 1] \<and>
   evs (fst (timeout_correct (skewed_world\<lparr>use_monotonic := True\<rparr>) 0)) = evs skewed_world"
proof -
  have d: "distinct (heap_p (timeheap (base skewed_world)))"
    by (simp add: example_defs)
  have d': "distinct (heap_p (timeheap (base (skewed_world\<lparr>use_monotonic := True\<rparr>))))"
    by (simp add: example_defs)
  note a = timeout_correct_shifts_deadlines[OF d, of 0 "fst (timeout_correct skewed_world 0)"
      "snd (timeout_correct skewed_world 0)"]
  note b = timeout_correct_shifts_deadlines[OF d', of 0
      "fst (timeout_correct (skewed_world\<lparr>use_monotonic := True\<rparr>) 0)"
      "snd (timeout_correct (skewed_world\<lparr>use_monotonic := True\<rparr>) 0)"]
  from a b show ?thesis
    by (simp add: example_defs timeout_correct_def shift_timeout_def heap_ordered_def
        gettime_def tv_sec_def Let_def)
qed

section \<open>Re-arming a timer\<close>

lemma event_add_timeout_rearm:
  assumes "EVLIST_TIMEOUT \<in> ev_flags (evs s ev)"
    and "EVLIST_ACTIVE \<in> ev_flags (evs s ev) \<and> EV_TIMEOUT \<in> ev_res (evs s ev) \<longrightarrow>
         ev_pri (evs s ev) < length (activequeues (base s))"
  shows "\<exists>s'. event_add_timeout s ev t = Inr s' \<and>
           ev_timeout (evs s' ev) = gettime s + t \<and>
           EVLIST_TIMEOUT \<in> ev_flags (evs s' ev) \<and>
           heap_p (timeheap (base s')) =
             insort_key (\<lambda>x. ev_timeout (evs s' x)) ev (remove1 ev (heap_p (timeheap (base s)))) \<and>
           (\<forall>x. x \<noteq> ev \<longrightarrow> ev_timeout (evs s' x) = ev_timeout (evs s x))"
proof -
  obtain s1 where r1: "event_queue_remove s ev EVLIST_TIMEOUT = Inr s1"
    using event_queue_remove_ok[OF assms(1)] by blast
  note e1 = event_queue_remove_effect[OF r1]
  have f1: "ev_flags (evs s1 ev) = ev_flags (evs s ev) - {EVLIST_TIMEOUT}"
    "ev_res (evs s1 ev) = ev_res (evs s ev)" "ev_pri (evs s1 ev) = ev_pri (evs s ev)"
    "\<And>x. ev_timeout (evs s1 x) = ev_timeout (evs s x)"
    "heap_p (timeheap (base s1)) = remove1 ev (heap_p (timeheap (base s)))"
    "activequeues (base s1) = activequeues (base s)"
    using e1 by (simp_all add: min_heap_erase_def)
  have g1: "gettime s1 = gettime s"
    using e1 by (intro gettime_cong) simp_all
  define A where "A = (EVLIST_ACTIVE \<in> ev_flags (evs s1 ev) \<and> EV_TIMEOUT \<in> ev_res (evs s1 ev))"
  have "\<exists>s2. (if A then event_queue_remove (abort_loop s1 ev) ev EVLIST_ACTIVE else Inr s1) = Inr s2 \<and>
          EVLIST_TIMEOUT \<notin> ev_flags (evs s2 ev) \<and>
          (\<forall>x. ev_timeout (evs s2 x) = ev_timeout (evs s x)) \<and>
          heap_p (timeheap (base s2)) = remove1 ev (heap_p (timeheap (base s))) \<and>
          gettime s2 = gettime s"
  proof (cases A)
    case False
    then show ?thesis using f1 g1 by simp
  next
    case True
    with assms(2) f1 have
      "EVLIST_ACTIVE \<in> ev_flags (evs (abort_loop s1 ev) ev)"
      "ev_pri (evs (abort_loop s1 ev) ev) < length (activequeues (base (abort_loop s1 ev)))"
      by (auto simp add: A_def abort_loop_frame)
    then obtain s2 where r2: "event_queue_remove (abort_loop s1 ev) ev EVLIST_ACTIVE = Inr s2"
      using event_queue_remove_ok by blast
    note e2 = event_queue_remove_effect[OF r2]
    have "gettime s2 = gettime (abort_loop s1 ev)"
      using e2 by (intro gettime_cong) simp_all
    also have "\<dots> = gettime s1"
      by (intro gettime_cong) (simp_all add: abort_loop_frame abort_loop_clock)
    finally have g2: "gettime s2 = gettime s" using g1 by simp
    have "EVLIST_TIMEOUT \<notin> ev_flags (evs s2 ev)"
      "\<And>x. ev_timeout (evs s2 x) = ev_timeout (evs s x)"
      "heap_p (timeheap (base s2)) = remove1 ev (heap_p (timeheap (base s)))"
      using e2 f1 by (simp_all add: abort_loop_frame)
    with True r2 g2 show ?thesis by simp
  qed
  then obtain s2 where
    r2: "(if A then event_queue_remove (abort_loop s1 ev) ev EVLIST_ACTIVE else Inr s1) = Inr s2"
    and f2: "EVLIST_TIMEOUT \<notin> ev_flags (evs s2 ev)"
      "\<And>x. ev_timeout (evs s2 x) = ev_timeout (evs s x)"
      "heap_p (timeheap (base s2)) = remove1 ev (heap_p (timeheap (base s)))"
      "gettime s2 = gettime s"
    by blast
  define s3 where "s3 = put_event s2 ev ((evs s2 ev)\<lparr>ev_timeout := gettime s2 + t\<rparr>)"
  have f3: "EVLIST_TIMEOUT \<notin> ev_flags (evs s3 ev)" "ev_timeout (evs s3 ev) = gettime s + t"
    "\<And>x. x \<noteq> ev \<Longrightarrow> ev_timeout (evs s3 x) = ev_timeout (evs s x)"
    "heap_p (timeheap (base s3)) = remove1 ev (heap_p (timeheap (base s)))"
    using f2 by (simp_all add: s3_def put_event_def)
  obtain s' where r3: "event_queue_insert s3 ev EVLIST_TIMEOUT = Inr s'"
    using event_queue_insert_ok[OF f3(1)] by blast
  note e3 = event_queue_insert_effect[OF r3 f3(1)]
  have res: "event_add_timeout s ev t = Inr s'"
    using assms(1) r1 r2 r3 by (simp add: event_add_timeout_def A_def s3_def)
  have "ev_timeout (evs s' ev) = gettime s + t" "EVLIST_TIMEOUT \<in> ev_flags (evs s' ev)"
    "\<And>x. x \<noteq> ev \<Longrightarrow> ev_timeout (evs s' x) = ev_timeout (evs s x)"
    "heap_p (timeheap (base s')) =
       insort_key (\<lambda>x. ev_timeout (evs s' x)) ev (remove1 ev (heap_p (timeheap (base s))))"
    using e3 f3 by (simp_all add: min_heap_push_def)
  with res show ?thesis by blast
qed

lemma event_add_io_ok:
  assumes "ev_events (evs s ev) \<inter> {EV_READ, EV_WRITE, EV_SIGNAL} = {} \<or>
         ev_flags (evs s ev) \<inter> {EVLIST_INSERTED, EVLIST_ACTIVE} \<noteq> {} \<or>
         fst (evsel_add (evsel (base s)) (evbase (base s)) ev (evs s ev)) \<noteq> - 1"
  shows "\<exists>r s1. event_add_io s ev = Inr (r, s1) \<and> r \<noteq> - 1 \<and>
           (\<forall>x. ev_timeout (evs s1 x) = ev_timeout (evs s x)) \<and>
           ev_res (evs s1 ev) = ev_res (evs s ev) \<and>
           ev_pri (evs s1 ev) = ev_pri (evs s ev) \<and>
           (EVLIST_TIMEOUT \<in> ev_flags (evs s1 ev)) = (EVLIST_TIMEOUT \<in> ev_flags (evs s ev)) \<and>
           (EVLIST_ACTIVE \<in> ev_flags (evs s1 ev)) = (EVLIST_ACTIVE \<in> ev_flags (evs s ev)) \<and>
           timeheap (base s1) = timeheap (base s) \<and>
           activequeues (base s1) = activequeues (base s) \<and>
           gettime s1 = gettime s"
proof (cases "ev_events (evs s ev) \<inter> {EV_READ, EV_WRITE, EV_SIGNAL} \<noteq> {} \<and>
         ev_flags (evs s ev) \<inter> {EVLIST_INSERTED, EVLIST_ACTIVE} = {}")
  case False
  then show ?thesis by (auto simp add: event_add_io_def Let_def)
next
  case True
  obtain res eb where reb: "evsel_add (evsel (base s)) (evbase (base s)) ev (evs s ev) = (res, eb)"
    by (cases "evsel_add (evsel (base s)) (evbase (base s)) ev (evs s ev)")
  with True assms have "res \<noteq> - 1" by auto
  with True reb show ?thesis
    by (auto simp add: event_add_io_def event_queue_insert_def put_event_def Let_def gettime_def)
qed

lemma event_add_rearm_ok:
  assumes "ev_base (evs s ev) \<noteq> None"
    and "EVLIST_TIMEOUT \<in> ev_flags (evs s ev)"
    and "ev \<in> set (heap_p (timeheap (base s)))"
    and "ev_events (evs s ev) \<inter> {EV_READ, EV_WRITE, EV_SIGNAL} = {} \<or>
         ev_flags (evs s ev) \<inter> {EVLIST_INSERTED, EVLIST_ACTIVE} \<noteq> {} \<or>
         fst (evsel_add (evsel (base s)) (evbase (base s)) ev (evs s ev)) \<noteq> - 1"
    and "EVLIST_ACTIVE \<in> ev_flags (evs s ev) \<and> EV_TIMEOUT \<in> ev_res (evs s ev) \<longrightarrow>
         ev_pri (evs s ev) < length (activequeues (base s))"
  shows "\<exists>r s'. event_add s ev (Some t) = Inr (r, s') \<and> r \<noteq> - 1 \<and>
           ev_timeout (evs s' ev) = gettime s + t \<and>
           EVLIST_TIMEOUT \<in> ev_flags (evs s' ev) \<and>
           heap_p (timeheap (base s')) =
             insort_key (\<lambda>x. ev_timeout (evs s' x)) ev (remove1 ev (heap_p (timeheap (base s)))) \<and>
           (\<forall>x. x \<noteq> ev \<longrightarrow> ev_timeout (evs s' x) = ev_timeout (evs s x))"
proof -
  have r: "event_add_reserve s ev (Some t) = (0, s)"
    using assms(2) by (simp add: event_add_reserve_def)
  from event_add_io_ok[OF assms(4)] obtain res s1 where
    io: "event_add_io s ev = Inr (res, s1)" "res \<noteq> - 1"
    and fr: "\<forall>x. ev_timeout (evs s1 x) = ev_timeout (evs s x)"
      "ev_res (evs s1 ev) = ev_res (evs s ev)"
      "ev_pri (evs s1 ev) = ev_pri (evs s ev)"
      "(EVLIST_TIMEOUT \<in> ev_flags (evs s1 ev)) = (EVLIST_TIMEOUT \<in> ev_flags (evs s ev))"
      "(EVLIST_ACTIVE \<in> ev_flags (evs s1 ev)) = (EVLIST_ACTIVE \<in> ev_flags (evs s ev))"
      "timeheap (base s1) = timeheap (base s)"
      "activequeues (base s1) = activequeues (base s)"
      "gettime s1 = gettime s"
    by blast
  have "\<exists>s'. event_add_timeout s1 ev t = Inr s' \<and>
           ev_timeout (evs s' ev) = gettime s1 + t \<and>
           EVLIST_TIMEOUT \<in> ev_flags (evs s' ev) \<and>
           heap_p (timeheap (base s')) =
             insort_key (\<lambda>x. ev_timeout (evs s' x)) ev (remove1 ev (heap_p (timeheap (base s1)))) \<and>
           (\<forall>x. x \<noteq> ev \<longrightarrow> ev_timeout (evs s' x) = ev_timeout (evs s1 x))"
    using assms(2,5) fr by (intro event_add_timeout_rearm) simp_all
  then obtain s' where s': "event_add_timeout s1 ev t = Inr s'"
           "ev_timeout (evs s' ev) = gettime s + t"
           "EVLIST_TIMEOUT \<in> ev_flags (evs s' ev)"
           "heap_p (timeheap (base s')) =
             insort_key (\<lambda>x. ev_timeout (evs s' x)) ev (remove1 ev (heap_p (timeheap (base s))))"
           "\<forall>x. x \<noteq> ev \<longrightarrow> ev_timeout (evs s' x) = ev_timeout (evs s x)"
    using fr by auto
  have "event_add s ev (Some t) = Inr (res, s')"
    using assms(1) r io s'(1) by (simp add: event_add_def)
  with s' io(2) show ?thesis by blast
qed

text \<open>
  C7 (as amended). \<^verbatim>\<open>event_add\<close> with a timeout \<open>t\<close> on an event that is bound to the loop,
  has \<open>TIMEOUT\<close> set and is in the timer heap returns, and the timer heap has the same
  events and the same size afterwards. It returns \<^verbatim>\<open>-1\<close> exactly when the backend's \<^verbatim>\<open>add\<close>
  is consulted (the event has a \<open>READ\<close>, \<open>WRITE\<close> or \<open>SIGNAL\<close> interest and is neither
  \<open>INSERTED\<close> nor \<open>ACTIVE\<close>) and refuses; then no event and no heap slot has changed, and the
  old deadline stands. Otherwise the old entry is taken out of the heap and the event is
  put back with the deadline \<open>gettime s + t\<close>, and no other deadline changes. An event that
  is active because of a timeout is taken to have a priority inside the array of queues.
\<close>

theorem event_add_rearm:
  assumes "ev_base (evs s ev) \<noteq> None"
    and "EVLIST_TIMEOUT \<in> ev_flags (evs s ev)"
    and "ev \<in> set (heap_p (timeheap (base s)))"
    and "EVLIST_ACTIVE \<in> ev_flags (evs s ev) \<and> EV_TIMEOUT \<in> ev_res (evs s ev) \<longrightarrow>
         ev_pri (evs s ev) < length (activequeues (base s))"
  shows "\<exists>r s'. event_add s ev (Some t) = Inr (r, s') \<and>
           (r = - 1) =
             (ev_events (evs s ev) \<inter> {EV_READ, EV_WRITE, EV_SIGNAL} \<noteq> {} \<and>
              ev_flags (evs s ev) \<inter> {EVLIST_INSERTED, EVLIST_ACTIVE} = {} \<and>
              fst (evsel_add (evsel (base s)) (evbase (base s)) ev (evs s ev)) = - 1) \<and>
           EVLIST_TIMEOUT \<in> ev_flags (evs s' ev) \<and>
           length (heap_p (timeheap (base s'))) = length (heap_p (timeheap (base s))) \<and>
           mset (heap_p (timeheap (base s'))) = mset (heap_p (timeheap (base s))) \<and>
           (\<forall>x. x \<noteq> ev \<longrightarrow> ev_timeout (evs s' x) = ev_timeout (evs s x)) \<and>
           (r \<noteq> - 1 \<longrightarrow>
              ev_timeout (evs s' ev) = gettime s + t \<and>
              heap_p (timeheap (base s')) =
                insort_key (\<lambda>x. ev_timeout (evs s' x)) ev
                  (remove1 ev (heap_p (timeheap (base s))))) \<and>
           (r = - 1 \<longrightarrow> evs s' = evs s \<and> timeheap (base s') = timeheap (base s))"
proof (cases "ev_events (evs s ev) \<inter> {EV_READ, EV_WRITE, EV_SIGNAL} \<noteq> {} \<and>
              ev_flags (evs s ev) \<inter> {EVLIST_INSERTED, EVLIST_ACTIVE} = {} \<and>
              fst (evsel_add (evsel (base s)) (evbase (base s)) ev (evs s ev)) = - 1")
  case True
  have r: "event_add_reserve s ev (Some t) = (0, s)"
    using assms(2) by (simp add: event_add_reserve_def)
  from True event_add_io_refused[of s ev] obtain eb where
    "event_add_io s ev = Inr (- 1, s\<lparr>base := (base s)\<lparr>evbase := eb\<rparr>\<rparr>)"
    by blast
  with assms(1) r
  have "event_add s ev (Some t) = Inr (- 1, s\<lparr>base := (base s)\<lparr>evbase := eb\<rparr>\<rparr>)"
    by (simp add: event_add_def)
  with True assms(2) show ?thesis by simp
next
  case False
  then have ok: "ev_events (evs s ev) \<inter> {EV_READ, EV_WRITE, EV_SIGNAL} = {} \<or>
         ev_flags (evs s ev) \<inter> {EVLIST_INSERTED, EVLIST_ACTIVE} \<noteq> {} \<or>
         fst (evsel_add (evsel (base s)) (evbase (base s)) ev (evs s ev)) \<noteq> - 1"
    by blast
  from event_add_rearm_ok[OF assms(1,2,3) ok assms(4), of t] obtain r s' where
    s': "event_add s ev (Some t) = Inr (r, s')" "r \<noteq> - 1"
      "ev_timeout (evs s' ev) = gettime s + t"
      "EVLIST_TIMEOUT \<in> ev_flags (evs s' ev)"
      "heap_p (timeheap (base s')) =
         insort_key (\<lambda>x. ev_timeout (evs s' x)) ev (remove1 ev (heap_p (timeheap (base s))))"
      "\<forall>x. x \<noteq> ev \<longrightarrow> ev_timeout (evs s' x) = ev_timeout (evs s x)"
    by blast
  have m: "mset (heap_p (timeheap (base s'))) = mset (heap_p (timeheap (base s)))"
    using assms(3) by (simp add: s'(5))
  have l: "length (heap_p (timeheap (base s'))) = length (heap_p (timeheap (base s)))"
    using m by (rule mset_eq_length)
  from False s' m l show ?thesis by blast
qed

lemma rearm_armed:
  "event_add armed_world 0 (Some 20) =
     Inr (0, armed_world\<lparr>evs := (evs armed_world)(0 := (evs armed_world 0)\<lparr>ev_timeout := 1020\<rparr>)\<rparr>)"
  by (simp add: example_defs function_defs)

lemma rearm_refused: "event_add lone_timer_world 0 (Some 20) = Inr (- 1, lone_timer_world)"
  by (simp add: example_defs function_defs)

theorem event_add_rearm_witness:
  "ev_base (evs armed_world 0) \<noteq> None \<and>
   EVLIST_TIMEOUT \<in> ev_flags (evs armed_world 0) \<and>
   0 \<in> set (heap_p (timeheap (base armed_world))) \<and>
   EVLIST_ACTIVE \<notin> ev_flags (evs armed_world 0) \<and>
   event_add armed_world 0 (Some 20) =
     Inr (0, armed_world\<lparr>evs := (evs armed_world)(0 := (evs armed_world 0)\<lparr>ev_timeout := 1020\<rparr>)\<rparr>) \<and>
   ev_timeout (evs armed_world 0) = 1005 \<and> gettime armed_world = 1000"
proof -
  have h1: "ev_base (evs armed_world 0) \<noteq> None"
    and h2: "EVLIST_TIMEOUT \<in> ev_flags (evs armed_world 0)"
    and h3: "0 \<in> set (heap_p (timeheap (base armed_world)))"
    and h4: "EVLIST_ACTIVE \<notin> ev_flags (evs armed_world 0)"
    by (simp_all add: example_defs)
  from h4 have h4': "EVLIST_ACTIVE \<in> ev_flags (evs armed_world 0) \<and>
         EV_TIMEOUT \<in> ev_res (evs armed_world 0) \<longrightarrow>
         ev_pri (evs armed_world 0) < length (activequeues (base armed_world))"
    by blast
  from event_add_rearm[OF h1 h2 h3 h4', of 20] obtain r s' where
    a: "event_add armed_world 0 (Some 20) = Inr (r, s')"
    and b: "r \<noteq> - 1 \<longrightarrow> ev_timeout (evs s' 0) = gettime armed_world + 20"
    by blast
  from a rearm_armed have "r = 0"
    and "s' = armed_world\<lparr>evs := (evs armed_world)(0 := (evs armed_world 0)\<lparr>ev_timeout := 1020\<rparr>)\<rparr>"
    by simp_all
  with b have g: "gettime armed_world = 1000" by simp
  have t: "ev_timeout (evs armed_world 0) = 1005" by (simp add: example_defs)
  from h1 h2 h3 h4 rearm_armed g t show ?thesis by simp
qed

text \<open>
  C7 as stated fails. A \<open>READ\<close> event that was activated for a timeout and then added with
  a timeout of 5 is in the timer heap with the deadline 1005 and has \<open>TIMEOUT\<close> alone set
  (\<^verbatim>\<open>event_add\<close> skips the backend for an active event and takes the event off its
  priority queue). A further \<^verbatim>\<open>event_add\<close> with a timeout of 20 consults the backend, which
  refuses: it returns \<^verbatim>\<open>-1\<close> and the deadline is still 1005, not 1020.
\<close>

theorem event_add_rearm_counterexample:
  "event_active refusing_world 0 {EV_TIMEOUT} 1 = Inr fired_world \<and>
   event_add fired_world 0 (Some 5) = Inr (0, lone_timer_world) \<and>
   EVLIST_TIMEOUT \<in> ev_flags (evs lone_timer_world 0) \<and>
   0 \<in> set (heap_p (timeheap (base lone_timer_world))) \<and>
   event_add lone_timer_world 0 (Some 20) = Inr (- 1, lone_timer_world) \<and>
   ev_timeout (evs lone_timer_world 0) = 1005 \<and>
   gettime lone_timer_world + 20 = 1020"
proof (intro conjI)
  show "event_active refusing_world 0 {EV_TIMEOUT} 1 = Inr fired_world"
    by (simp add: example_defs event_active_def event_queue_insert_def put_event_def Let_def)
  show "event_add fired_world 0 (Some 5) = Inr (0, lone_timer_world)"
    by (simp add: example_defs function_defs)
  show "event_add lone_timer_world 0 (Some 20) = Inr (- 1, lone_timer_world)"
    by (rule rearm_refused)
qed (simp_all add: example_defs gettime_def tv_sec_def)

section \<open>The active-queue drain\<close>

subsection \<open>The invocations of the inner loop\<close>

lemma call_loop_0_log: "call_loop 0 cbs pn ev h first s = (log, r) \<Longrightarrow> log = []"
  by (auto split: if_splits)

lemma call_loop_Suc_cases:
  assumes "call_loop (Suc n) cbs pn ev h first s = (log, r)" and "log \<noteq> []"
  shows "\<exists>c log'.
    c_ev c = ev \<and> c_head c = h \<and> c_first c = first \<and> c_pre c = call_enter s pn ev \<and>
    log = c # log' \<and>
    (stop_requested (c_post c) \<longrightarrow> log' = [] \<and> r = Some (True, c_post c)) \<and>
    (\<not> stop_requested (c_post c) \<longrightarrow> call_loop n cbs pn ev h False (c_post c) = (log', r))"
proof -
  define s1 where "s1 = call_enter s pn ev"
  define s2 where "s2 = cbs (ev_callback (evs s1 ev)) (ev_fd (evs s1 ev)) (ev_res (evs s1 ev))
                          (ev_arg (evs s1 ev)) s1"
  define c where "c = \<lparr>c_ev = ev, c_head = h, c_first = first, c_pre = s1, c_post = s2\<rparr>"
  from assms have ne0: "locals s pn \<noteq> 0"
    by (cases "locals s pn = 0") simp_all
  have c: "c_ev c = ev" "c_head c = h" "c_first c = first" "c_pre c = call_enter s pn ev"
    "c_post c = s2"
    by (simp_all add: c_def s1_def)
  show ?thesis
  proof (cases "stop_requested s2")
    case True
    with ne0 assms(1) have "log = [c]" "r = Some (True, s2)"
      by (simp_all add: Let_def c_def s1_def s2_def)
    with True c show ?thesis by auto
  next
    case False
    obtain log' r' where rec: "call_loop n cbs pn ev h False s2 = (log', r')"
      by (cases "call_loop n cbs pn ev h False s2")
    have "call_loop (Suc n) cbs pn ev h first s = (c # log', r')"
      using ne0 False rec
      by (simp add: Let_def c_def[symmetric] s1_def[symmetric] s2_def[symmetric])
    with assms(1) have "log = c # log'" "r = r'" by simp_all
    with False c rec show ?thesis by auto
  qed
qed

lemma call_loop_log_ev:
  "call_loop n cbs pn ev h first s = (log, r) \<Longrightarrow> c \<in> set log \<Longrightarrow> c_ev c = ev \<and> c_head c = h"
proof (induction n arbitrary: first s log r)
  case 0
  from call_loop_0_log[OF 0(1)] 0 show ?case by simp
next
  case (Suc n)
  from Suc.prems(2) have ne: "log \<noteq> []" by auto
  from Suc.prems(1) ne obtain c0 log' where
    c0: "c_ev c0 = ev" "c_head c0 = h" "c_first c0 = first" "c_pre c0 = call_enter s pn ev"
    and log: "log = c0 # log'"
    and stop: "stop_requested (c_post c0) \<Longrightarrow> log' = [] \<and> r = Some (True, c_post c0)"
    and cont: "\<not> stop_requested (c_post c0) \<Longrightarrow> call_loop n cbs pn ev h False (c_post c0) = (log', r)"
    using call_loop_Suc_cases by blast
  show ?case
  proof (cases "c = c0")
    case True
    with c0 show ?thesis by simp
  next
    case False
    with Suc.prems(2) log have "c \<in> set log'" by simp
    with stop cont Suc.IH show ?thesis by (cases "stop_requested (c_post c0)") auto
  qed
qed

lemma call_loop_first:
  "call_loop n cbs pn ev h first s = (log, r) \<Longrightarrow> c \<in> set log \<Longrightarrow> c_first c \<Longrightarrow>
   first \<and> c_pre c = call_enter s pn ev"
proof (induction n arbitrary: first s log r)
  case 0
  from call_loop_0_log[OF 0(1)] 0 show ?case by simp
next
  case (Suc n)
  from Suc.prems(2) have ne: "log \<noteq> []" by auto
  from Suc.prems(1) ne obtain c0 log' where
    c0: "c_ev c0 = ev" "c_head c0 = h" "c_first c0 = first" "c_pre c0 = call_enter s pn ev"
    and log: "log = c0 # log'"
    and stop: "stop_requested (c_post c0) \<Longrightarrow> log' = [] \<and> r = Some (True, c_post c0)"
    and cont: "\<not> stop_requested (c_post c0) \<Longrightarrow> call_loop n cbs pn ev h False (c_post c0) = (log', r)"
    using call_loop_Suc_cases by blast
  show ?case
  proof (cases "c = c0")
    case True
    with c0 Suc.prems(3) show ?thesis by simp
  next
    case False
    with Suc.prems(2) log have "c \<in> set log'" by simp
    with stop cont Suc.IH[of False "c_post c0" log' r] Suc.prems(3) show ?thesis
      by (cases "stop_requested (c_post c0)") auto
  qed
qed

lemma call_loop_stop:
  "call_loop n cbs pn ev h first s = (log, r) \<Longrightarrow> k < length log \<Longrightarrow>
   stop_requested (c_post (log ! k)) \<Longrightarrow>
   Suc k = length log \<and> r = Some (True, c_post (log ! k))"
proof (induction n arbitrary: first s log r k)
  case 0
  from call_loop_0_log[OF 0(1)] 0 show ?case by simp
next
  case (Suc n)
  from Suc.prems(2) have ne: "log \<noteq> []" by auto
  from Suc.prems(1) ne obtain c0 log' where
    c0: "c_ev c0 = ev" "c_head c0 = h" "c_first c0 = first" "c_pre c0 = call_enter s pn ev"
    and log: "log = c0 # log'"
    and stop: "stop_requested (c_post c0) \<Longrightarrow> log' = [] \<and> r = Some (True, c_post c0)"
    and cont: "\<not> stop_requested (c_post c0) \<Longrightarrow> call_loop n cbs pn ev h False (c_post c0) = (log', r)"
    using call_loop_Suc_cases by blast
  show ?case
  proof (cases "stop_requested (c_post c0)")
    case True
    with stop log Suc.prems(2) show ?thesis by simp
  next
    case False
    with Suc.prems(3) log obtain k' where k': "k = Suc k'" by (cases k) auto
    from Suc.prems(2,3) log k' have kk: "k' < length log'" "stop_requested (c_post (log' ! k'))"
      by simp_all
    from Suc.IH[OF cont[OF False] kk]
    have A: "length log' = Suc k'" and B: "r = Some (True, c_post (log' ! k'))" by simp_all
    show ?thesis by (simp add: log k' A B)
  qed
qed

lemma call_loop_no_stop:
  assumes "call_loop n cbs pn ev h first s = (log, r)" and "r \<noteq> Some (True, s')" and "c \<in> set log"
    and "\<forall>w. r \<noteq> Some (True, w)"
  shows "\<not> stop_requested (c_post c)"
proof
  assume st: "stop_requested (c_post c)"
  from assms(3) obtain k where k: "k < length log" "log ! k = c" by (auto simp add: in_set_conv_nth)
  from call_loop_stop[OF assms(1) k(1)] st k(2) assms(4) show False by simp
qed

subsection \<open>The invocations of the outer loop\<close>

lemma process_queue_0_log: "process_queue 0 cbs pn i s = (log, r) \<Longrightarrow> log = []"
  by (auto split: if_splits list.splits)

lemma process_queue_Suc_cases:
  assumes "process_queue (Suc n) cbs pn i s = (log, r)" and "log \<noteq> []"
  shows "\<exists>ev rest s1 log1 r1.
    i < length (activequeues (base s)) \<and>
    activequeues (base s) ! i = ev # rest \<and>
    process_unlink s ev = Inr s1 \<and>
    call_loop n cbs pn ev s True (process_setup s1 pn ev) = (log1, r1) \<and>
    ((r1 = None \<and> log = log1 \<and> r = None) \<or>
         (\<exists>s2. r1 = Some (True, s2) \<and> log = log1 \<and> r = Some (Inr (clear_pncalls s2 ev))) \<or>
         (\<exists>s2 log2. r1 = Some (False, s2) \<and>
            process_queue n cbs pn i (clear_pncalls s2 ev) = (log2, r) \<and> log = log1 @ log2))"
proof -
  from assms have i: "i < length (activequeues (base s))"
    by (cases "length (activequeues (base s)) \<le> i") simp_all
  from assms i obtain ev rest where q: "activequeues (base s) ! i = ev # rest"
    by (cases "activequeues (base s) ! i") simp_all
  from assms i q obtain s1 where ul: "process_unlink s ev = Inr s1"
    by (cases "process_unlink s ev") simp_all
  obtain log1 r1 where cl: "call_loop n cbs pn ev s True (process_setup s1 pn ev) = (log1, r1)"
    by (cases "call_loop n cbs pn ev s True (process_setup s1 pn ev)")
  have "(r1 = None \<and> log = log1 \<and> r = None) \<or>
         (\<exists>s2. r1 = Some (True, s2) \<and> log = log1 \<and> r = Some (Inr (clear_pncalls s2 ev))) \<or>
         (\<exists>s2 log2. r1 = Some (False, s2) \<and>
            process_queue n cbs pn i (clear_pncalls s2 ev) = (log2, r) \<and> log = log1 @ log2)"
  proof (cases r1)
    case None
    with assms(1) i q ul cl show ?thesis by simp
  next
    case (Some p)
    obtain stop s2 where p: "p = (stop, s2)" by (cases p)
    show ?thesis
    proof (cases stop)
      case True
      with Some p assms(1) i q ul cl show ?thesis by simp
    next
      case False
      obtain log2 r2 where rec: "process_queue n cbs pn i (clear_pncalls s2 ev) = (log2, r2)"
        by (cases "process_queue n cbs pn i (clear_pncalls s2 ev)")
      with False Some p assms(1) i q ul cl show ?thesis by simp
    qed
  qed
  with i q ul cl show ?thesis by blast
qed

lemma process_queue_head:
  "process_queue n cbs pn i s = (log, r) \<Longrightarrow> c \<in> set log \<Longrightarrow>
   i < length (activequeues (base (c_head c))) \<and>
   activequeues (base (c_head c)) ! i \<noteq> [] \<and>
   c_ev c = hd (activequeues (base (c_head c)) ! i)"
proof (induction n arbitrary: s log r)
  case 0
  from process_queue_0_log[OF 0(1)] 0 show ?case by simp
next
  case (Suc n)
  from Suc.prems(2) have ne: "log \<noteq> []" by auto
  from process_queue_Suc_cases[OF Suc.prems(1) ne] obtain ev rest s1 log1 r1 where
    i: "i < length (activequeues (base s))"
    and q: "activequeues (base s) ! i = ev # rest"
    and ul: "process_unlink s ev = Inr s1"
    and cl: "call_loop n cbs pn ev s True (process_setup s1 pn ev) = (log1, r1)"
    and alt: "(r1 = None \<and> log = log1 \<and> r = None) \<or>
         (\<exists>s2. r1 = Some (True, s2) \<and> log = log1 \<and> r = Some (Inr (clear_pncalls s2 ev))) \<or>
         (\<exists>s2 log2. r1 = Some (False, s2) \<and>
            process_queue n cbs pn i (clear_pncalls s2 ev) = (log2, r) \<and> log = log1 @ log2)"
    by blast
  have here: ?case if "c \<in> set log1"
    using call_loop_log_ev[OF cl that] i q by simp
  from alt show ?case
  proof (elim disjE exE conjE)
    assume "log = log1"
    with Suc.prems(2) here show ?thesis by simp
  next
    fix s2 assume "log = log1"
    with Suc.prems(2) here show ?thesis by simp
  next
    fix s2 log2
    assume a: "process_queue n cbs pn i (clear_pncalls s2 ev) = (log2, r)" "log = log1 @ log2"
    with Suc.prems(2) have "c \<in> set log1 \<or> c \<in> set log2" by simp
    then show ?thesis
    proof
      assume "c \<in> set log1" then show ?thesis by (rule here)
    next
      assume "c \<in> set log2" with a(1) show ?thesis by (rule Suc.IH)
    qed
  qed
qed

lemma process_queue_first:
  "process_queue n cbs pn i s = (log, r) \<Longrightarrow> c \<in> set log \<Longrightarrow> c_first c \<Longrightarrow>
   \<exists>s1. process_unlink (c_head c) (c_ev c) = Inr s1 \<and>
        c_pre c = call_enter (process_setup s1 pn (c_ev c)) pn (c_ev c)"
proof (induction n arbitrary: s log r)
  case 0
  from process_queue_0_log[OF 0(1)] 0 show ?case by simp
next
  case (Suc n)
  from Suc.prems(2) have ne: "log \<noteq> []" by auto
  from process_queue_Suc_cases[OF Suc.prems(1) ne] obtain ev rest s1 log1 r1 where
    i: "i < length (activequeues (base s))"
    and q: "activequeues (base s) ! i = ev # rest"
    and ul: "process_unlink s ev = Inr s1"
    and cl: "call_loop n cbs pn ev s True (process_setup s1 pn ev) = (log1, r1)"
    and alt: "(r1 = None \<and> log = log1 \<and> r = None) \<or>
         (\<exists>s2. r1 = Some (True, s2) \<and> log = log1 \<and> r = Some (Inr (clear_pncalls s2 ev))) \<or>
         (\<exists>s2 log2. r1 = Some (False, s2) \<and>
            process_queue n cbs pn i (clear_pncalls s2 ev) = (log2, r) \<and> log = log1 @ log2)"
    by blast
  have here: ?case if "c \<in> set log1"
    using call_loop_log_ev[OF cl that] call_loop_first[OF cl that Suc.prems(3)] ul by simp
  from alt show ?case
  proof (elim disjE exE conjE)
    assume "log = log1"
    with Suc.prems(2) here show ?thesis by simp
  next
    fix s2 assume "log = log1"
    with Suc.prems(2) here show ?thesis by simp
  next
    fix s2 log2
    assume a: "process_queue n cbs pn i (clear_pncalls s2 ev) = (log2, r)" "log = log1 @ log2"
    with Suc.prems(2) have "c \<in> set log1 \<or> c \<in> set log2" by simp
    then show ?thesis
    proof
      assume "c \<in> set log1" then show ?thesis by (rule here)
    next
      assume "c \<in> set log2" from a(1) this Suc.prems(3) show ?thesis by (rule Suc.IH)
    qed
  qed
qed

lemma process_queue_stop:
  "process_queue n cbs pn i s = (log, r) \<Longrightarrow> k < length log \<Longrightarrow>
   stop_requested (c_post (log ! k)) \<Longrightarrow>
   Suc k = length log \<and> r = Some (Inr (clear_pncalls (c_post (log ! k)) (c_ev (log ! k))))"
proof (induction n arbitrary: s log r k)
  case 0
  from process_queue_0_log[OF 0(1)] 0 show ?case by simp
next
  case (Suc n)
  from Suc.prems(2) have ne: "log \<noteq> []" by auto
  from process_queue_Suc_cases[OF Suc.prems(1) ne] obtain ev rest s1 log1 r1 where
    i: "i < length (activequeues (base s))"
    and q: "activequeues (base s) ! i = ev # rest"
    and ul: "process_unlink s ev = Inr s1"
    and cl: "call_loop n cbs pn ev s True (process_setup s1 pn ev) = (log1, r1)"
    and alt: "(r1 = None \<and> log = log1 \<and> r = None) \<or>
         (\<exists>s2. r1 = Some (True, s2) \<and> log = log1 \<and> r = Some (Inr (clear_pncalls s2 ev))) \<or>
         (\<exists>s2 log2. r1 = Some (False, s2) \<and>
            process_queue n cbs pn i (clear_pncalls s2 ev) = (log2, r) \<and> log = log1 @ log2)"
    by blast
  note st = call_loop_stop[OF cl]
  note evh = call_loop_log_ev[OF cl]
  from alt show ?case
  proof (elim disjE exE conjE)
    assume a: "r1 = None" "log = log1" "r = None"
    from st[of k] Suc.prems(2,3) a show ?thesis by simp
  next
    fix s2 assume a: "r1 = Some (True, s2)" "log = log1" "r = Some (Inr (clear_pncalls s2 ev))"
    from Suc.prems(2) a(2) have "log1 ! k \<in> set log1" by simp
    from evh[OF this] have e: "c_ev (log1 ! k) = ev" by simp
    from st[of k] Suc.prems(2,3) a have "Suc k = length log1" "s2 = c_post (log1 ! k)" by simp_all
    with a e show ?thesis by simp
  next
    fix s2 log2
    assume a: "r1 = Some (False, s2)" "process_queue n cbs pn i (clear_pncalls s2 ev) = (log2, r)"
      "log = log1 @ log2"
    have ge: "\<not> k < length log1"
    proof
      assume lt: "k < length log1"
      with Suc.prems(3) a(3) have "stop_requested (c_post (log1 ! k))" by (simp add: nth_append)
      from st[OF lt this] a(1) show False by simp
    qed
    define k' where "k' = k - length log1"
    from ge Suc.prems(2) a(3) have k': "k' < length log2" "log ! k = log2 ! k'" "k = length log1 + k'"
      by (simp_all add: k'_def nth_append)
    from Suc.prems(3) k'(2) have "stop_requested (c_post (log2 ! k'))" by simp
    from Suc.IH[OF a(2) k'(1) this]
    have "Suc k' = length log2" "r = Some (Inr (clear_pncalls (c_post (log2 ! k')) (c_ev (log2 ! k'))))"
      by simp_all
    with k' a(3) show ?thesis by simp
  qed
qed

subsection \<open>Taking an event off the queues\<close>

lemma remove_if_effect:
  assumes "(if q \<in> ev_flags (evs s ev) then event_queue_remove s ev q else Inr s) = Inr s'"
  shows "ev_flags (evs s' ev) = ev_flags (evs s ev) - {q} \<and>
      ev_pri (evs s' ev) = ev_pri (evs s ev) \<and>
      eventqueue (base s') =
           (if q = EVLIST_INSERTED \<and> q \<in> ev_flags (evs s ev)
            then remove1 ev (eventqueue (base s)) else eventqueue (base s)) \<and>
      heap_p (timeheap (base s')) =
           (if q = EVLIST_TIMEOUT \<and> q \<in> ev_flags (evs s ev)
            then remove1 ev (heap_p (timeheap (base s))) else heap_p (timeheap (base s))) \<and>
      activequeues (base s') =
           (if q = EVLIST_ACTIVE \<and> q \<in> ev_flags (evs s ev)
            then (activequeues (base s))
                   [ev_pri (evs s ev) := remove1 ev (activequeues (base s) ! ev_pri (evs s ev))]
            else activequeues (base s))"
proof (cases "q \<in> ev_flags (evs s ev)")
  case True
  with assms have r: "event_queue_remove s ev q = Inr s'" by simp
  from event_queue_remove_effect[OF r] True show ?thesis
    by (simp add: min_heap_erase_def)
next
  case False
  with assms have "s' = s" by simp
  with False show ?thesis by simp
qed

lemma event_del_effect:
  assumes "event_del s ev = Inr (r, s')" and "ev_base (evs s ev) \<noteq> None"
  shows "ev_flags (evs s' ev) =
           ev_flags (evs s ev) - {EVLIST_INSERTED, EVLIST_TIMEOUT, EVLIST_ACTIVE}"
    and "eventqueue (base s') =
           (if EVLIST_INSERTED \<in> ev_flags (evs s ev)
            then remove1 ev (eventqueue (base s)) else eventqueue (base s))"
    and "heap_p (timeheap (base s')) =
           (if EVLIST_TIMEOUT \<in> ev_flags (evs s ev)
            then remove1 ev (heap_p (timeheap (base s))) else heap_p (timeheap (base s)))"
    and "activequeues (base s') =
           (if EVLIST_ACTIVE \<in> ev_flags (evs s ev)
            then (activequeues (base s))
                   [ev_pri (evs s ev) := remove1 ev (activequeues (base s) ! ev_pri (evs s ev))]
            else activequeues (base s))"
proof -
  define s0 where "s0 = abort_loop s ev"
  have f0: "evs s0 = evs s" "base s0 = base s"
    by (simp_all add: s0_def abort_loop_frame)
  from assms obtain s1 s2 where
    s1: "(if EVLIST_TIMEOUT \<in> ev_flags (evs s0 ev)
              then event_queue_remove s0 ev EVLIST_TIMEOUT else Inr s0) = Inr s1"
    and s2: "(if EVLIST_ACTIVE \<in> ev_flags (evs s1 ev)
                   then event_queue_remove s1 ev EVLIST_ACTIVE else Inr s1) = Inr s2"
    and s3: "(if EVLIST_INSERTED \<in> ev_flags (evs s2 ev)
                 then (case event_queue_remove s2 ev EVLIST_INSERTED of
                         Inl f \<Rightarrow> Inl f
                       | Inr s3 \<Rightarrow>
                           (case evsel_del (evsel (base s3)) (evbase (base s3)) ev (evs s3 ev) of
                              (r, eb) \<Rightarrow> Inr (r, s3\<lparr>base := (base s3)\<lparr>evbase := eb\<rparr>\<rparr>)))
                 else Inr (0, s2)) = Inr (r, s')"
    unfolding event_del_def s0_def Let_def by (auto split: sum.splits)
  note e1 = remove_if_effect[OF s1]
  note e2 = remove_if_effect[OF s2]
  obtain s3 where s3': "(if EVLIST_INSERTED \<in> ev_flags (evs s2 ev)
              then event_queue_remove s2 ev EVLIST_INSERTED else Inr s2) = Inr s3"
    and fin: "evs s' = evs s3" "eventqueue (base s') = eventqueue (base s3)"
      "timeheap (base s') = timeheap (base s3)" "activequeues (base s') = activequeues (base s3)"
  proof (cases "EVLIST_INSERTED \<in> ev_flags (evs s2 ev)")
    case False
    with s3 have "s' = s2" by simp
    with False that[of s2] show ?thesis by simp
  next
    case True
    with s3 obtain s3 where a: "event_queue_remove s2 ev EVLIST_INSERTED = Inr s3"
      by (cases "event_queue_remove s2 ev EVLIST_INSERTED") simp_all
    obtain r' eb where b: "evsel_del (evsel (base s3)) (evbase (base s3)) ev (evs s3 ev) = (r', eb)"
      by (cases "evsel_del (evsel (base s3)) (evbase (base s3)) ev (evs s3 ev)")
    with True s3 a have "s' = s3\<lparr>base := (base s3)\<lparr>evbase := eb\<rparr>\<rparr>" by simp
    with True a that[of s3] show ?thesis by simp
  qed
  note e3 = remove_if_effect[OF s3']
  show "ev_flags (evs s' ev) =
           ev_flags (evs s ev) - {EVLIST_INSERTED, EVLIST_TIMEOUT, EVLIST_ACTIVE}"
    using e1 e2 e3 fin(1) f0 by auto
  show "eventqueue (base s') =
           (if EVLIST_INSERTED \<in> ev_flags (evs s ev)
            then remove1 ev (eventqueue (base s)) else eventqueue (base s))"
    using e1 e2 e3 fin(2) f0 by simp
  show "heap_p (timeheap (base s')) =
           (if EVLIST_TIMEOUT \<in> ev_flags (evs s ev)
            then remove1 ev (heap_p (timeheap (base s))) else heap_p (timeheap (base s)))"
    using e1 e2 e3 fin(3) f0 by simp
  show "activequeues (base s') =
           (if EVLIST_ACTIVE \<in> ev_flags (evs s ev)
            then (activequeues (base s))
                   [ev_pri (evs s ev) := remove1 ev (activequeues (base s) ! ev_pri (evs s ev))]
            else activequeues (base s))"
    using e1 e2 e3 fin(4) f0 by simp
qed

lemma first_call_frame:
  "ev_flags (evs (call_enter (process_setup s pn ev) pn ev) x) = ev_flags (evs s x)"
  "base (call_enter (process_setup s pn ev) pn ev) = base s"
  by (simp_all add: call_enter_def process_setup_def put_event_def)

lemma first_active_Some:
  "first_active qs = Some i \<Longrightarrow> i < length qs \<and> qs ! i \<noteq> [] \<and> (\<forall>j<i. qs ! j = [])"
proof (induction qs arbitrary: i)
  case Nil
  then show ?case by simp
next
  case (Cons q qs)
  show ?case
  proof (cases "q = []")
    case False
    with Cons.prems show ?thesis by simp
  next
    case True
    with Cons.prems obtain i' where i': "first_active qs = Some i'" "i = Suc i'" by auto
    from Cons.IH[OF i'(1)] True i'(2) show ?thesis by (auto simp add: less_Suc_eq_0_disj)
  qed
qed

lemma first_active_exists:
  "\<exists>q \<in> set qs. q \<noteq> [] \<Longrightarrow> \<exists>i. first_active qs = Some i"
  by (induction qs) auto

lemma links_ok_queues:
  assumes "event_links_ok s ev" and "j < length (activequeues (base s))"
    and "ev \<in> set (activequeues (base s) ! j)"
  shows "j = ev_pri (evs s ev)" and "EVLIST_ACTIVE \<in> ev_flags (evs s ev)"
  using assms unfolding event_links_ok_def list_all_iff by auto

lemma links_ok_distinct:
  assumes "event_links_ok s ev"
  shows "distinct (eventqueue (base s))" and "distinct (heap_p (timeheap (base s)))"
    and "j < length (activequeues (base s)) \<Longrightarrow> distinct (activequeues (base s) ! j)"
    and "ev \<in> set (eventqueue (base s)) \<Longrightarrow> EVLIST_INSERTED \<in> ev_flags (evs s ev)"
    and "ev \<in> set (heap_p (timeheap (base s))) \<Longrightarrow> EVLIST_TIMEOUT \<in> ev_flags (evs s ev)"
  using assms unfolding event_links_ok_def list_all_iff by auto

lemma process_active_queue:
  assumes "event_process_active fuel cbs pn s = (log, r)" and "log \<noteq> []"
  shows "\<exists>i. first_active (activequeues (base s)) = Some i \<and>
             process_queue fuel cbs pn i s = (log, r)"
  using assms by (cases "first_active (activequeues (base s))")
    (simp_all add: event_process_active_def)

lemma unlink_persist:
  assumes u: "process_unlink h ev = Inr s1" and p: "EV_PERSIST \<in> ev_events (evs h ev)"
  shows "EVLIST_ACTIVE \<in> ev_flags (evs h ev) \<and>
         ev_flags (evs s1 ev) = ev_flags (evs h ev) - {EVLIST_ACTIVE} \<and>
         eventqueue (base s1) = eventqueue (base h) \<and>
         timeheap (base s1) = timeheap (base h) \<and>
         activequeues (base s1) =
           (activequeues (base h))
             [ev_pri (evs h ev) := remove1 ev (activequeues (base h) ! ev_pri (evs h ev))]"
proof -
  from u p have r: "event_queue_remove h ev EVLIST_ACTIVE = Inr s1"
    by (simp add: process_unlink_def)
  from event_queue_remove_effect[OF r] show ?thesis by simp
qed

lemma unlink_oneshot:
  assumes u: "process_unlink h ev = Inr s1" and p: "EV_PERSIST \<notin> ev_events (evs h ev)"
    and b: "ev_base (evs h ev) \<noteq> None"
  shows "ev_flags (evs s1 ev) =
           ev_flags (evs h ev) - {EVLIST_INSERTED, EVLIST_TIMEOUT, EVLIST_ACTIVE}"
    and "event_links_ok h ev \<Longrightarrow> ev \<notin> set (eventqueue (base s1))"
    and "event_links_ok h ev \<Longrightarrow> ev \<notin> set (heap_p (timeheap (base s1)))"
    and "event_links_ok h ev \<Longrightarrow> q \<in> set (activequeues (base s1)) \<Longrightarrow> ev \<notin> set q"
proof -
  from u p obtain r where d: "event_del h ev = Inr (r, s1)"
    by (cases "event_del h ev") (auto simp add: process_unlink_def)
  note e = event_del_effect[OF d b]
  show "ev_flags (evs s1 ev) =
           ev_flags (evs h ev) - {EVLIST_INSERTED, EVLIST_TIMEOUT, EVLIST_ACTIVE}"
    by (rule e(1))
  show "ev \<notin> set (eventqueue (base s1))" if l: "event_links_ok h ev"
    using e(2) links_ok_distinct(1,4)[OF l] by (auto split: if_splits)
  show "ev \<notin> set (heap_p (timeheap (base s1)))" if l: "event_links_ok h ev"
    using e(3) links_ok_distinct(2,5)[OF l] by (auto split: if_splits)
  show "ev \<notin> set q" if l: "event_links_ok h ev" and q: "q \<in> set (activequeues (base s1))"
  proof
    assume m: "ev \<in> set q"
    from q obtain j where j: "j < length (activequeues (base s1))"
      "q = activequeues (base s1) ! j"
      by (auto simp add: in_set_conv_nth)
    show False
    proof (cases "EVLIST_ACTIVE \<in> ev_flags (evs h ev)")
      case False
      with e(4) j have jj: "j < length (activequeues (base h))"
        "q = activequeues (base h) ! j" by simp_all
      from links_ok_queues(2)[OF l jj(1)] m jj(2) False show False by simp
    next
      case True
      with e(4) j have jj: "j < length (activequeues (base h))" by simp
      show False
      proof (cases "j = ev_pri (evs h ev)")
        case True
        with \<open>EVLIST_ACTIVE \<in> ev_flags (evs h ev)\<close> e(4) j jj
        have "q = remove1 ev (activequeues (base h) ! j)" by simp
        with links_ok_distinct(3)[OF l jj] m show False by simp
      next
        case False
        with \<open>EVLIST_ACTIVE \<in> ev_flags (evs h ev)\<close> e(4) j jj
        have "q = activequeues (base h) ! j" by simp
        with links_ok_queues(1)[OF l jj] m False show False by simp
      qed
    qed
  qed
qed

lemma event_active_bound:
  assumes "event_active s ev res n = Inr s'" and "EVLIST_ACTIVE \<notin> ev_flags (evs s ev)"
  shows "ev_base (evs s' ev) \<noteq> None" and "EVLIST_ACTIVE \<in> ev_flags (evs s' ev)"
proof -
  define s0 where
    "s0 = put_event s ev ((evs s ev)\<lparr>ev_res := res, ev_ncalls := n, ev_pncalls := None\<rparr>)"
  from assms have b: "ev_base (evs s ev) \<noteq> None"
    by (auto simp add: event_active_def Let_def split: if_splits)
  with assms have i: "event_queue_insert s0 ev EVLIST_ACTIVE = Inr s'"
    by (simp add: event_active_def Let_def s0_def)
  from assms(2) have n: "EVLIST_ACTIVE \<notin> ev_flags (evs s0 ev)"
    by (simp add: s0_def put_event_def)
  from event_queue_insert_effect(1)[OF i n] b
  show "ev_base (evs s' ev) \<noteq> None" and "EVLIST_ACTIVE \<in> ev_flags (evs s' ev)"
    by (simp_all add: s0_def put_event_def)
qed

subsection \<open>The example drains\<close>

lemma quiet_run_events: "map c_ev (fst quiet_run) = [0, 1]"
  by (simp add: quiet_run_def drain_defs example_defs function_defs)

lemma breaking_run_events: "map c_ev (fst breaking_run) = [0]"
  by (simp add: breaking_run_def drain_defs example_defs function_defs)

lemma quiet_run_first:
  "length (fst quiet_run) = 2"
  "c_ev (fst quiet_run ! 0) = 0"
  "c_first (fst quiet_run ! 0)"
  "c_head (fst quiet_run ! 0) = ready_world"
  by (simp_all add: quiet_run_def drain_defs example_defs function_defs)

lemma quiet_run_second:
  "c_ev (fst quiet_run ! 1) = 1"
  "c_first (fst quiet_run ! 1)"
  "EV_PERSIST \<notin> ev_events (evs (c_head (fst quiet_run ! 1)) 1)"
  "ev_base (evs (c_head (fst quiet_run ! 1)) 1) \<noteq> None"
  "ev_flags (evs (c_head (fst quiet_run ! 1)) 1) =
     {EVLIST_INIT, EVLIST_INSERTED, EVLIST_TIMEOUT, EVLIST_ACTIVE}"
  "event_links_ok (c_head (fst quiet_run ! 1)) 1"
  by (simp_all add: quiet_run_def drain_defs example_defs function_defs event_links_ok_def
      upt_rec)

lemma ready_world_links: "event_links_ok ready_world 0"
  by (simp add: ready_world_def example_defs event_links_ok_def upt_rec)

lemma quiet_run_result:
  "map_option (map_sum id (\<lambda>w. activequeues (base w))) (snd quiet_run) = Some (Inr [[], [2]])"
  by (simp add: quiet_run_def drain_defs example_defs function_defs)

lemma breaking_run_first:
  "length (fst breaking_run) = 1"
  "c_ev (fst breaking_run ! 0) = 0"
  "stop_requested (c_post (fst breaking_run ! 0))"
  "activequeues (base (c_post (fst breaking_run ! 0))) = [[1], [2]]"
  by (simp_all add: breaking_run_def drain_defs example_defs function_defs)

subsection \<open>What the drain does to an event before its callback\<close>

text \<open>
  C3. In one drain, let \<open>c\<close> be the first invocation of the callback of an event, \<open>c_head c\<close>
  the memory when the event was taken from the head of the queue and \<open>c_pre c\<close> the memory
  the callback is entered with. If the event has \<open>PERSIST\<close>, it was active, only \<open>ACTIVE\<close> has
  been cleared, the registry and the timer heap are as they were, and the event has been
  taken off the queue of its priority. If it has not, and is bound to a loop, then
  \<open>INSERTED\<close>, \<open>TIMEOUT\<close> and \<open>ACTIVE\<close> are all clear and, when its links agreed with its flags,
  it is in none of the registry, the timer heap and the priority queues. An event is made
  active by \<^verbatim>\<open>event_active\<close> alone, which needs it bound (\<open>event_active_bound\<close>).
\<close>

theorem process_active_unlinks_before_callback:
  assumes "event_process_active fuel cbs pn s = (log, r)"
    and "c \<in> set log" and "c_first c"
  shows "(EV_PERSIST \<in> ev_events (evs (c_head c) (c_ev c)) \<longrightarrow>
            EVLIST_ACTIVE \<in> ev_flags (evs (c_head c) (c_ev c)) \<and>
            ev_flags (evs (c_pre c) (c_ev c)) =
              ev_flags (evs (c_head c) (c_ev c)) - {EVLIST_ACTIVE} \<and>
            eventqueue (base (c_pre c)) = eventqueue (base (c_head c)) \<and>
            timeheap (base (c_pre c)) = timeheap (base (c_head c)) \<and>
            activequeues (base (c_pre c)) =
              (activequeues (base (c_head c)))
                [ev_pri (evs (c_head c) (c_ev c)) :=
                   remove1 (c_ev c)
                     (activequeues (base (c_head c)) ! ev_pri (evs (c_head c) (c_ev c)))]) \<and>
         (EV_PERSIST \<notin> ev_events (evs (c_head c) (c_ev c)) \<and>
          ev_base (evs (c_head c) (c_ev c)) \<noteq> None \<longrightarrow>
            ev_flags (evs (c_pre c) (c_ev c)) =
              ev_flags (evs (c_head c) (c_ev c)) -
                {EVLIST_INSERTED, EVLIST_TIMEOUT, EVLIST_ACTIVE} \<and>
            (event_links_ok (c_head c) (c_ev c) \<longrightarrow>
               c_ev c \<notin> set (eventqueue (base (c_pre c))) \<and>
               c_ev c \<notin> set (heap_p (timeheap (base (c_pre c)))) \<and>
               (\<forall>q \<in> set (activequeues (base (c_pre c))). c_ev c \<notin> set q)))"
proof -
  from assms(2) have "log \<noteq> []" by auto
  from process_active_queue[OF assms(1) this] obtain i where
    q: "process_queue fuel cbs pn i s = (log, r)" by blast
  from process_queue_first[OF q assms(2,3)] obtain s1 where
    u: "process_unlink (c_head c) (c_ev c) = Inr s1"
    and pre: "c_pre c = call_enter (process_setup s1 pn (c_ev c)) pn (c_ev c)" by blast
  have fr: "ev_flags (evs (c_pre c) (c_ev c)) = ev_flags (evs s1 (c_ev c))"
    "base (c_pre c) = base s1"
    by (simp_all add: pre first_call_frame)
  show ?thesis
  proof (intro conjI impI ballI)
    assume p: "EV_PERSIST \<in> ev_events (evs (c_head c) (c_ev c))"
    note a = unlink_persist[OF u p]
    from a show "EVLIST_ACTIVE \<in> ev_flags (evs (c_head c) (c_ev c))" by simp
    from a fr show "ev_flags (evs (c_pre c) (c_ev c)) =
              ev_flags (evs (c_head c) (c_ev c)) - {EVLIST_ACTIVE}" by simp
    from a fr show "eventqueue (base (c_pre c)) = eventqueue (base (c_head c))" by simp
    from a fr show "timeheap (base (c_pre c)) = timeheap (base (c_head c))" by simp
    from a fr show "activequeues (base (c_pre c)) =
              (activequeues (base (c_head c)))
                [ev_pri (evs (c_head c) (c_ev c)) :=
                   remove1 (c_ev c)
                     (activequeues (base (c_head c)) ! ev_pri (evs (c_head c) (c_ev c)))]"
      by simp
  next
    assume "EV_PERSIST \<notin> ev_events (evs (c_head c) (c_ev c)) \<and>
          ev_base (evs (c_head c) (c_ev c)) \<noteq> None"
    then have p: "EV_PERSIST \<notin> ev_events (evs (c_head c) (c_ev c))"
      and b: "ev_base (evs (c_head c) (c_ev c)) \<noteq> None" by simp_all
    from unlink_oneshot(1)[OF u p b] fr
    show "ev_flags (evs (c_pre c) (c_ev c)) =
              ev_flags (evs (c_head c) (c_ev c)) -
                {EVLIST_INSERTED, EVLIST_TIMEOUT, EVLIST_ACTIVE}" by simp
    assume l: "event_links_ok (c_head c) (c_ev c)"
    from unlink_oneshot(2)[OF u p b l] fr
    show "c_ev c \<notin> set (eventqueue (base (c_pre c)))" by simp
    from unlink_oneshot(3)[OF u p b l] fr
    show "c_ev c \<notin> set (heap_p (timeheap (base (c_pre c))))" by simp
    fix q assume "q \<in> set (activequeues (base (c_pre c)))"
    with fr have "q \<in> set (activequeues (base s1))" by simp
    from unlink_oneshot(4)[OF u p b l this]
    show "c_ev c \<notin> set q" .
  qed
qed

theorem process_active_unlinks_before_callback_witness:
  "event_process_active (Suc (Suc (Suc 0))) quiet_cbs 0 ready_world = quiet_run \<and>
   length (fst quiet_run) = 2 \<and>
   c_ev (fst quiet_run ! 0) = 0 \<and> c_first (fst quiet_run ! 0) \<and>
   c_head (fst quiet_run ! 0) = ready_world \<and>
   EV_PERSIST \<in> ev_events (evs ready_world 0) \<and>
   ev_flags (evs (c_pre (fst quiet_run ! 0)) 0) = {EVLIST_INIT, EVLIST_INSERTED} \<and>
   eventqueue (base (c_pre (fst quiet_run ! 0))) = [0, 1, 2] \<and>
   heap_p (timeheap (base (c_pre (fst quiet_run ! 0)))) = [1] \<and>
   activequeues (base (c_pre (fst quiet_run ! 0))) = [[1], [2]] \<and>
   c_ev (fst quiet_run ! 1) = 1 \<and> c_first (fst quiet_run ! 1) \<and>
   EV_PERSIST \<notin> ev_events (evs (c_head (fst quiet_run ! 1)) 1) \<and>
   ev_base (evs (c_head (fst quiet_run ! 1)) 1) \<noteq> None \<and>
   event_links_ok (c_head (fst quiet_run ! 1)) 1 \<and>
   ev_flags (evs (c_pre (fst quiet_run ! 1)) 1) = {EVLIST_INIT} \<and>
   1 \<notin> set (eventqueue (base (c_pre (fst quiet_run ! 1)))) \<and>
   1 \<notin> set (heap_p (timeheap (base (c_pre (fst quiet_run ! 1))))) \<and>
   1 \<notin> set (concat (activequeues (base (c_pre (fst quiet_run ! 1)))))"
proof -
  define c0 where "c0 = fst quiet_run ! 0"
  define c1 where "c1 = fst quiet_run ! 1"
  have r0: "event_process_active (Suc (Suc (Suc 0))) quiet_cbs 0 ready_world = quiet_run"
    by (simp add: quiet_run_def)
  then have run: "event_process_active (Suc (Suc (Suc 0))) quiet_cbs 0 ready_world =
      (fst quiet_run, snd quiet_run)"
    by simp
  have m0: "c0 \<in> set (fst quiet_run)" and m1: "c1 \<in> set (fst quiet_run)"
    by (simp_all add: quiet_run_first(1) c0_def c1_def)
  have f0: "c_ev c0 = 0" "c_first c0" "c_head c0 = ready_world"
    using quiet_run_first by (simp_all add: c0_def)
  have f1: "c_ev c1 = 1" "c_first c1"
    and p1: "EV_PERSIST \<notin> ev_events (evs (c_head c1) (c_ev c1)) \<and>
             ev_base (evs (c_head c1) (c_ev c1)) \<noteq> None"
    and h1: "ev_flags (evs (c_head c1) (c_ev c1)) =
               {EVLIST_INIT, EVLIST_INSERTED, EVLIST_TIMEOUT, EVLIST_ACTIVE}"
    and l1: "event_links_ok (c_head c1) (c_ev c1)"
    using quiet_run_second by (simp_all add: c1_def)
  have p: "EV_PERSIST \<in> ev_events (evs ready_world 0)"
    by (simp add: ready_world_def example_defs)
  have h0: "ev_flags (evs ready_world 0) = {EVLIST_INIT, EVLIST_INSERTED, EVLIST_ACTIVE}"
    "eventqueue (base ready_world) = [0, 1, 2]"
    "heap_p (timeheap (base ready_world)) = [1]"
    "activequeues (base ready_world) = [[0, 1], [2]]"
    "ev_pri (evs ready_world 0) = 0"
    by (simp_all add: ready_world_def example_defs)
  from p f0 have p0: "EV_PERSIST \<in> ev_events (evs (c_head c0) (c_ev c0))" by simp
  note A = process_active_unlinks_before_callback[OF run m0 f0(2), THEN conjunct1,
      rule_format, OF p0]
  have a: "ev_flags (evs (c_pre c0) 0) = {EVLIST_INIT, EVLIST_INSERTED}"
    "eventqueue (base (c_pre c0)) = [0, 1, 2]"
    "heap_p (timeheap (base (c_pre c0))) = [1]"
    "activequeues (base (c_pre c0)) = [[1], [2]]"
    using A by (auto simp add: f0 h0)
  note B = process_active_unlinks_before_callback[OF run m1 f1(2), THEN conjunct2,
      rule_format, OF p1]
  from B have "ev_flags (evs (c_pre c1) (c_ev c1)) =
      ev_flags (evs (c_head c1) (c_ev c1)) - {EVLIST_INSERTED, EVLIST_TIMEOUT, EVLIST_ACTIVE}"
    by (rule conjunct1)
  then have "ev_flags (evs (c_pre c1) (c_ev c1)) =
      {EVLIST_INIT, EVLIST_INSERTED, EVLIST_TIMEOUT, EVLIST_ACTIVE} -
        {EVLIST_INSERTED, EVLIST_TIMEOUT, EVLIST_ACTIVE}"
    by (simp only: h1)
  moreover have "{EVLIST_INIT, EVLIST_INSERTED, EVLIST_TIMEOUT, EVLIST_ACTIVE} -
        {EVLIST_INSERTED, EVLIST_TIMEOUT, EVLIST_ACTIVE} = {EVLIST_INIT}"
    by auto
  ultimately have b1: "ev_flags (evs (c_pre c1) 1) = {EVLIST_INIT}"
    by (simp add: f1)
  from B[THEN conjunct2, rule_format, OF l1]
  have b2: "1 \<notin> set (eventqueue (base (c_pre c1)))"
    "1 \<notin> set (heap_p (timeheap (base (c_pre c1))))"
    "\<forall>q \<in> set (activequeues (base (c_pre c1))). 1 \<notin> set q"
    by (simp_all add: f1)
  from b2(3) have b3: "1 \<notin> set (concat (activequeues (base (c_pre c1))))" by auto
  have e1: "EV_PERSIST \<notin> ev_events (evs (c_head c1) 1)"
    "ev_base (evs (c_head c1) 1) \<noteq> None" "event_links_ok (c_head c1) 1"
    using p1 l1 by (simp_all add: f1)
  show ?thesis
    unfolding c0_def[symmetric] c1_def[symmetric]
    using r0 quiet_run_first(1) f0 p a f1 e1 b1 b2(1,2) b3
    by (intro conjI) assumption+
qed

subsection \<open>One priority level for each drain\<close>

text \<open>
  C4. When some priority queue is not empty, the drain picks the first such queue, of index
  \<open>i\<close>: every queue before it is empty, and every callback the drain invokes is for the event
  that was then at the head of queue \<open>i\<close>. When the links of that event agreed with its
  flags, its priority is \<open>i\<close> and it was in no other queue.
\<close>

theorem process_active_one_level:
  assumes "event_process_active fuel cbs pn s = (log, r)"
    and "\<exists>q \<in> set (activequeues (base s)). q \<noteq> []"
  shows "\<exists>i. first_active (activequeues (base s)) = Some i \<and>
             i < length (activequeues (base s)) \<and>
             activequeues (base s) ! i \<noteq> [] \<and>
             (\<forall>j<i. activequeues (base s) ! j = []) \<and>
             process_queue fuel cbs pn i s = (log, r) \<and>
             (\<forall>c \<in> set log.
                i < length (activequeues (base (c_head c))) \<and>
                activequeues (base (c_head c)) ! i \<noteq> [] \<and>
                c_ev c = hd (activequeues (base (c_head c)) ! i) \<and>
                (event_links_ok (c_head c) (c_ev c) \<longrightarrow>
                   ev_pri (evs (c_head c) (c_ev c)) = i \<and>
                   (\<forall>j<length (activequeues (base (c_head c))).
                      j \<noteq> i \<longrightarrow> c_ev c \<notin> set (activequeues (base (c_head c)) ! j))))"
proof -
  from first_active_exists[OF assms(2)] obtain i where
    i: "first_active (activequeues (base s)) = Some i" by blast
  with assms(1) have q: "process_queue fuel cbs pn i s = (log, r)"
    by (simp add: event_process_active_def)
  have "i < length (activequeues (base (c_head c))) \<and>
        activequeues (base (c_head c)) ! i \<noteq> [] \<and>
        c_ev c = hd (activequeues (base (c_head c)) ! i) \<and>
        (event_links_ok (c_head c) (c_ev c) \<longrightarrow>
           ev_pri (evs (c_head c) (c_ev c)) = i \<and>
           (\<forall>j<length (activequeues (base (c_head c))).
              j \<noteq> i \<longrightarrow> c_ev c \<notin> set (activequeues (base (c_head c)) ! j)))"
    if c: "c \<in> set log" for c
  proof -
    note h = process_queue_head[OF q c]
    from h have m: "c_ev c \<in> set (activequeues (base (c_head c)) ! i)" by simp
    from h have il: "i < length (activequeues (base (c_head c)))" by simp
    have "ev_pri (evs (c_head c) (c_ev c)) = i \<and>
           (\<forall>j<length (activequeues (base (c_head c))).
              j \<noteq> i \<longrightarrow> c_ev c \<notin> set (activequeues (base (c_head c)) ! j))"
      if l: "event_links_ok (c_head c) (c_ev c)"
    proof (intro conjI allI impI)
      from links_ok_queues(1)[OF l il m]
      show pi: "ev_pri (evs (c_head c) (c_ev c)) = i" by simp
      fix j assume j: "j < length (activequeues (base (c_head c)))" "j \<noteq> i"
      show "c_ev c \<notin> set (activequeues (base (c_head c)) ! j)"
      proof
        assume "c_ev c \<in> set (activequeues (base (c_head c)) ! j)"
        from links_ok_queues(1)[OF l j(1) this] pi j(2) show False by simp
      qed
    qed
    with h show ?thesis by blast
  qed
  with first_active_Some[OF i] i q show ?thesis by blast
qed

theorem process_active_one_level_witness:
  "event_process_active (Suc (Suc (Suc 0))) quiet_cbs 0 ready_world = quiet_run \<and>
   activequeues (base ready_world) = [[0, 1], [2]] \<and>
   first_active (activequeues (base ready_world)) = Some 0 \<and>
   length (fst quiet_run) = 2 \<and>
   c_head (fst quiet_run ! 0) = ready_world \<and>
   event_links_ok ready_world 0 \<and>
   c_ev (fst quiet_run ! 0) = 0 \<and> ev_pri (evs ready_world 0) = 0 \<and>
   0 \<notin> set (activequeues (base ready_world) ! 1) \<and>
   map c_ev (fst quiet_run) = [0, 1] \<and>
   map_option (map_sum id (\<lambda>w. activequeues (base w))) (snd quiet_run) = Some (Inr [[], [2]])"
proof -
  define c0 where "c0 = fst quiet_run ! 0"
  have r0: "event_process_active (Suc (Suc (Suc 0))) quiet_cbs 0 ready_world = quiet_run"
    by (simp add: quiet_run_def)
  then have run: "event_process_active (Suc (Suc (Suc 0))) quiet_cbs 0 ready_world =
      (fst quiet_run, snd quiet_run)"
    by simp
  have q: "activequeues (base ready_world) = [[0, 1], [2]]"
    by (simp add: ready_world_def example_defs)
  then have ne: "\<exists>q \<in> set (activequeues (base ready_world)). q \<noteq> []" by simp
  have m0: "c0 \<in> set (fst quiet_run)"
    by (simp add: quiet_run_first(1) c0_def)
  have f0: "c_head c0 = ready_world"
    using quiet_run_first by (simp_all add: c0_def)
  from process_active_one_level[OF run ne] obtain i where
    i: "first_active (activequeues (base ready_world)) = Some i"
    and c: "\<forall>c \<in> set (fst quiet_run).
                i < length (activequeues (base (c_head c))) \<and>
                activequeues (base (c_head c)) ! i \<noteq> [] \<and>
                c_ev c = hd (activequeues (base (c_head c)) ! i) \<and>
                (event_links_ok (c_head c) (c_ev c) \<longrightarrow>
                   ev_pri (evs (c_head c) (c_ev c)) = i \<and>
                   (\<forall>j<length (activequeues (base (c_head c))).
                      j \<noteq> i \<longrightarrow> c_ev c \<notin> set (activequeues (base (c_head c)) ! j)))"
    by blast
  from i q have i0: "i = 0" by simp
  with i have f: "first_active (activequeues (base ready_world)) = Some 0" by simp
  note C = c[rule_format, OF m0]
  from C have e: "c_ev c0 = 0" by (simp add: f0 q i0)
  from C have "event_links_ok ready_world 0 \<longrightarrow>
      ev_pri (evs ready_world 0) = 0 \<and>
      (\<forall>j<length (activequeues (base ready_world)).
           j \<noteq> 0 \<longrightarrow> 0 \<notin> set (activequeues (base ready_world) ! j))"
    by (simp add: f0 e i0)
  with ready_world_links have g: "ev_pri (evs ready_world 0) = 0"
    and g2: "\<forall>j<length (activequeues (base ready_world)).
           j \<noteq> 0 \<longrightarrow> 0 \<notin> set (activequeues (base ready_world) ! j)"
    by simp_all
  from g2[rule_format, of 1] q have g3: "0 \<notin> set (activequeues (base ready_world) ! 1)"
    by simp
  show ?thesis
    unfolding c0_def[symmetric]
    using r0 q f quiet_run_first(1) f0 ready_world_links e g g3 quiet_run_events
      quiet_run_result
    by (intro conjI) assumption+
qed

subsection \<open>Stopping the drain\<close>

text \<open>
  C5. If, after an invocation of a callback in a drain, the signal flag is up or a break is
  requested, that invocation is the last of the drain: the drain returns, whatever fuel is
  left, the memory the callback left with only \<open>ev_pncalls\<close> of the event reset, so the loop
  and its priority queues are as the callback left them.
\<close>

theorem process_active_stops_on_break:
  assumes "event_process_active fuel cbs pn s = (log, r)"
    and "k < length log" and "stop_requested (c_post (log ! k))"
  shows "Suc k = length log \<and>
         r = Some (Inr (clear_pncalls (c_post (log ! k)) (c_ev (log ! k)))) \<and>
         ev_pncalls (evs (clear_pncalls (c_post (log ! k)) (c_ev (log ! k))) (c_ev (log ! k)))
           = None \<and>
         base (clear_pncalls (c_post (log ! k)) (c_ev (log ! k))) = base (c_post (log ! k))"
proof -
  from assms(2) have "log \<noteq> []" by auto
  from process_active_queue[OF assms(1) this] obtain i where
    q: "process_queue fuel cbs pn i s = (log, r)" by blast
  from process_queue_stop[OF q assms(2,3)] show ?thesis
    by (simp add: clear_pncalls_def put_event_def)
qed
theorem process_active_stops_on_break_witness:
  "event_process_active (Suc (Suc (Suc 0))) breaking_cbs 0 ready_world = breaking_run \<and>
   0 < length (fst breaking_run) \<and>
   stop_requested (c_post (fst breaking_run ! 0)) \<and>
   map c_ev (fst breaking_run) = [0] \<and>
   snd breaking_run = Some (Inr (clear_pncalls (c_post (fst breaking_run ! 0)) 0)) \<and>
   ev_pncalls (evs (clear_pncalls (c_post (fst breaking_run ! 0)) 0) 0) = None \<and>
   activequeues (base (clear_pncalls (c_post (fst breaking_run ! 0)) 0)) = [[1], [2]]"
proof -
  define c0 where "c0 = fst breaking_run ! 0"
  have r0: "event_process_active (Suc (Suc (Suc 0))) breaking_cbs 0 ready_world = breaking_run"
    by (simp add: breaking_run_def)
  then have run: "event_process_active (Suc (Suc (Suc 0))) breaking_cbs 0 ready_world =
      (fst breaking_run, snd breaking_run)"
    by simp
  have k: "0 < length (fst breaking_run)" by (simp add: breaking_run_first(1))
  have f0: "c_ev c0 = 0" "stop_requested (c_post c0)"
    "activequeues (base (c_post c0)) = [[1], [2]]"
    using breaking_run_first by (simp_all add: c0_def)
  note A = process_active_stops_on_break[OF run k breaking_run_first(3)]
  from A have a: "snd breaking_run = Some (Inr (clear_pncalls (c_post c0) 0))"
    "ev_pncalls (evs (clear_pncalls (c_post c0) 0) 0) = None"
    "base (clear_pncalls (c_post c0) 0) = base (c_post c0)"
    using f0(1) by (simp_all add: c0_def)
  from a(3) f0(3) have b: "activequeues (base (clear_pncalls (c_post c0) 0)) = [[1], [2]]"
    by simp
  show ?thesis
    unfolding c0_def[symmetric]
    using r0 k f0(2) breaking_run_events a(1,2) b
    by (intro conjI) assumption+
qed

end
